theory Spec2Isabelle
  imports Complex_Main "HOL-Library.Multiset"
begin

section \<open>Machine arithmetic of the sources\<close>

text \<open>
  The sources compute with \<^verbatim>\<open>std::size_t\<close> (64 bits, unsigned, wrapping) and with
  \<^verbatim>\<open>int\<close> (32 bits, signed). A \<^verbatim>\<open>size_t\<close> value is modelled as a natural number
  below \<open>2 ^ 64\<close> and every operation writes its wrap-around out. An \<^verbatim>\<open>int\<close> is a HOL
  integer; the two conversions of C++ between the types are \<open>sz_of_int\<close> (to unsigned,
  modulo \<open>2 ^ 64\<close>) and \<open>int_of_sz\<close> (narrowing to the low 32 bits, two's complement).
  Division by zero is undefined behaviour in C++ and \<open>0\<close> in HOL: every theorem below
  that divides assumes a positive divisor.
\<close>

definition sz_add :: "nat \<Rightarrow> nat \<Rightarrow> nat" where
  "sz_add a b = (a + b) mod 2 ^ 64"

definition sz_sub :: "nat \<Rightarrow> nat \<Rightarrow> nat" where
  "sz_sub a b = (a + 2 ^ 64 - b mod 2 ^ 64) mod 2 ^ 64"

definition sz_mul :: "nat \<Rightarrow> nat \<Rightarrow> nat" where
  "sz_mul a b = (a * b) mod 2 ^ 64"

definition sz_of_int :: "int \<Rightarrow> nat" where
  "sz_of_int i = nat (i mod 2 ^ 64)"

definition int_of_sz :: "nat \<Rightarrow> int" where
  "int_of_sz x =
     (if x mod 2 ^ 32 < 2 ^ 31 then int (x mod 2 ^ 32) else int (x mod 2 ^ 32) - 2 ^ 32)"

section \<open>Memory mapper (ityr/ori/mem\_mapper.hpp)\<close>

record segment =
  owner :: int
  offset_b :: nat
  offset_e :: nat
  pm_offset :: nat

text \<open>
  The fields of \<^verbatim>\<open>base\<close> together with the template parameter \<^verbatim>\<open>BlockSize\<close> and the
  members the derived classes add (\<^verbatim>\<open>n_blk_\<close> for the two block policies,
  \<^verbatim>\<open>seg_size_\<close> for the cyclic one). The field names drop the trailing underscore of
  the C++ members, and \<^verbatim>\<open>size_\<close> is \<open>mem_size\<close>.
\<close>

record mapper =
  BlockSize :: nat
  mem_size :: nat
  n_inter_ranks :: int
  n_intra_ranks :: int
  n_blk :: nat
  seg_size :: nat

text \<open>
  Modelled from the spec: the macro \<^verbatim>\<open>ITYR_CHECK\<close> of ityr/common/util.hpp, which is
  not among the sources. The spec calls it a debug assertion that is fatal in checked
  builds. The flag \<open>chk\<close> says whether the build is a checked one; a failed check is the
  result \<open>None\<close>.
\<close>

definition ITYR_CHECK :: "bool \<Rightarrow> bool \<Rightarrow> unit option" where
  "ITYR_CHECK chk cond = (if chk \<and> \<not> cond then None else Some ())"

subsection \<open>Block policy\<close>

definition block :: "nat \<Rightarrow> nat \<Rightarrow> int \<Rightarrow> int \<Rightarrow> mapper" where
  "block B sz R Q =
     \<lparr>BlockSize = B, mem_size = sz, n_inter_ranks = R,
      n_intra_ranks = Q,
      n_blk = sz_sub (sz_add sz B) 1 div B, seg_size = B\<rparr>"

definition block_get_seg_range :: "mapper \<Rightarrow> int \<Rightarrow> nat \<times> nat" where
  "block_get_seg_range m seg_id =
     (let R = sz_of_int (n_inter_ranks m);
          blk_id_b = sz_sub (sz_add (sz_mul (sz_of_int seg_id) (n_blk m)) R) 1 div R;
          blk_id_e = sz_sub (sz_add (sz_mul (sz_of_int (seg_id + 1)) (n_blk m)) R) 1 div R
      in (blk_id_b, blk_id_e))"

definition block_local_size :: "mapper \<Rightarrow> int \<Rightarrow> nat" where
  "block_local_size m inter_rank =
     (let seg_id = inter_rank;
          (blk_id_b, blk_id_e) = block_get_seg_range m seg_id
      in sz_mul (max 1 (sz_sub blk_id_e blk_id_b)) (BlockSize m))"

definition block_effective_size :: "mapper \<Rightarrow> nat" where
  "block_effective_size m = sz_mul (n_blk m) (BlockSize m)"

definition block_get_segment :: "bool \<Rightarrow> mapper \<Rightarrow> nat \<Rightarrow> segment option" where
  "block_get_segment chk m offset =
     (case ITYR_CHECK chk (offset < block_effective_size m) of None \<Rightarrow> None
      | Some _ \<Rightarrow>
        let blk_id = offset div BlockSize m;
            seg_id = int_of_sz (sz_mul blk_id (sz_of_int (n_inter_ranks m)) div n_blk m);
            (blk_id_b, blk_id_e) = block_get_seg_range m seg_id
        in (case ITYR_CHECK chk (blk_id_b \<le> blk_id) of None \<Rightarrow> None
            | Some _ \<Rightarrow>
              (case ITYR_CHECK chk (blk_id < blk_id_e) of None \<Rightarrow> None
               | Some _ \<Rightarrow>
                 Some \<lparr>owner = seg_id,
                       offset_b = sz_mul blk_id_b (BlockSize m),
                       offset_e = sz_mul blk_id_e (BlockSize m),
                       pm_offset = 0\<rparr>)))"

subsection \<open>Cyclic policy\<close>

text \<open>The constructor checks \<^verbatim>\<open>seg_size >= BlockSize\<close> and \<^verbatim>\<open>seg_size % BlockSize == 0\<close>.\<close>

definition cyclic :: "bool \<Rightarrow> nat \<Rightarrow> nat \<Rightarrow> int \<Rightarrow> int \<Rightarrow> nat \<Rightarrow> mapper option" where
  "cyclic chk B sz R Q S =
     (case ITYR_CHECK chk (S \<ge> B) of None \<Rightarrow> None
      | Some _ \<Rightarrow>
        (case ITYR_CHECK chk (S mod B = 0) of None \<Rightarrow> None
         | Some _ \<Rightarrow>
           Some \<lparr>BlockSize = B, mem_size = sz, n_inter_ranks = R,
                 n_intra_ranks = Q, n_blk = 0, seg_size = S\<rparr>))"

definition cyclic_local_size_impl :: "mapper \<Rightarrow> nat" where
  "cyclic_local_size_impl m =
     (let R = sz_of_int (n_inter_ranks m);
          n_blk_g = sz_sub (sz_add (mem_size m) (seg_size m)) 1 div seg_size m;
          n_blk_l = sz_sub (sz_add n_blk_g R) 1 div R
      in sz_mul n_blk_l (seg_size m))"

definition cyclic_local_size :: "mapper \<Rightarrow> int \<Rightarrow> nat" where
  "cyclic_local_size m inter_rank = cyclic_local_size_impl m"

definition cyclic_effective_size :: "mapper \<Rightarrow> nat" where
  "cyclic_effective_size m = sz_mul (cyclic_local_size_impl m) (sz_of_int (n_inter_ranks m))"

definition cyclic_get_segment :: "bool \<Rightarrow> mapper \<Rightarrow> nat \<Rightarrow> segment option" where
  "cyclic_get_segment chk m offset =
     (case ITYR_CHECK chk (offset < cyclic_effective_size m) of None \<Rightarrow> None
      | Some _ \<Rightarrow>
        let R = sz_of_int (n_inter_ranks m);
            blk_id_g = offset div seg_size m;
            blk_id_l = blk_id_g div R
        in Some \<lparr>owner = int_of_sz (blk_id_g mod R),
                  offset_b = sz_mul blk_id_g (seg_size m),
                  offset_e = sz_mul (sz_add blk_id_g 1) (seg_size m),
                  pm_offset = sz_mul blk_id_l (seg_size m)\<rparr>)"

subsection \<open>Reverse-block policy (block\_adws)\<close>

definition block_adws :: "nat \<Rightarrow> nat \<Rightarrow> int \<Rightarrow> int \<Rightarrow> mapper" where
  "block_adws B sz R Q =
     \<lparr>BlockSize = B, mem_size = sz, n_inter_ranks = R,
      n_intra_ranks = Q,
      n_blk = sz_sub (sz_add sz B) 1 div B, seg_size = B\<rparr>"

definition block_adws_get_seg_range :: "mapper \<Rightarrow> int \<Rightarrow> nat \<times> nat" where
  "block_adws_get_seg_range m seg_id =
     (let R = sz_of_int (n_inter_ranks m);
          blk_id_b = sz_mul (sz_of_int seg_id) (n_blk m) div R;
          blk_id_e = sz_mul (sz_of_int (seg_id + 1)) (n_blk m) div R
      in (blk_id_b, blk_id_e))"

definition block_adws_local_size :: "mapper \<Rightarrow> int \<Rightarrow> nat" where
  "block_adws_local_size m inter_rank =
     (let seg_id = n_inter_ranks m - inter_rank - 1;
          (blk_id_b, blk_id_e) = block_adws_get_seg_range m seg_id
      in sz_mul (max 1 (sz_sub blk_id_e blk_id_b)) (BlockSize m))"

definition block_adws_effective_size :: "mapper \<Rightarrow> nat" where
  "block_adws_effective_size m = sz_mul (n_blk m) (BlockSize m)"

definition block_adws_get_segment :: "bool \<Rightarrow> mapper \<Rightarrow> nat \<Rightarrow> segment option" where
  "block_adws_get_segment chk m offset =
     (case ITYR_CHECK chk (offset < block_adws_effective_size m) of None \<Rightarrow> None
      | Some _ \<Rightarrow>
        let blk_id = offset div BlockSize m;
            seg_id = int_of_sz
              (sz_sub (sz_sub (sz_add (sz_mul (sz_add blk_id 1) (sz_of_int (n_inter_ranks m)))
                                      (n_blk m)) 1 div n_blk m) 1);
            (blk_id_b, blk_id_e) = block_adws_get_seg_range m seg_id
        in (case ITYR_CHECK chk (blk_id_b \<le> blk_id) of None \<Rightarrow> None
            | Some _ \<Rightarrow>
              (case ITYR_CHECK chk (blk_id < blk_id_e) of None \<Rightarrow> None
               | Some _ \<Rightarrow>
                 Some \<lparr>owner = n_inter_ranks m - seg_id - 1,
                       offset_b = sz_mul blk_id_b (BlockSize m),
                       offset_e = sz_mul blk_id_e (BlockSize m),
                       pm_offset = 0\<rparr>)))"

subsection \<open>Representable inputs\<close>

text \<open>
  The inputs on which no \<^verbatim>\<open>size_t\<close> operation of the block policies wraps: a positive
  block size \<open>B\<close>, a size whose rounding up to blocks fits 64 bits, a positive rank count
  \<open>R\<close> that fits \<^verbatim>\<open>int\<close>, and a product of block count and rank count (with the
  rounding terms the code adds) below \<open>2 ^ 64\<close>.
\<close>

definition mapper_in_range :: "nat \<Rightarrow> nat \<Rightarrow> nat \<Rightarrow> bool" where
  "mapper_in_range B sz R \<longleftrightarrow>
     1 \<le> B \<and> B < 2 ^ 64 \<and> sz + B \<le> 2 ^ 64 \<and> 1 \<le> R \<and> R < 2 ^ 31 \<and>
     ((sz + B - 1) div B + 1) * (R + 1) \<le> 2 ^ 64"



text \<open>
  The same for the cyclic policy with segment size \<open>S\<close>: the number of global segments
  plus the rank count, times \<open>S\<close>, stays within 64 bits. This bounds the rounding of the
  size to segments, the rounding of the segment count to ranks, and the effective size.
\<close>

definition cyclic_in_range :: "nat \<Rightarrow> nat \<Rightarrow> nat \<Rightarrow> bool" where
  "cyclic_in_range S sz R \<longleftrightarrow>
     1 \<le> S \<and> sz + S \<le> 2 ^ 64 \<and> 1 \<le> R \<and> R < 2 ^ 31 \<and>
     ((sz + S - 1) div S + R) * S \<le> 2 ^ 64"

section \<open>Checkout span (ityr/container/checkout\_span.hpp)\<close>

text \<open>
  Pointers are natural numbers and \<open>0\<close> is the null pointer. The calls into the
  \<^verbatim>\<open>ori\<close> layer are recorded in a trace, in program order. The checkout mode is a type
  parameter of the span and is the same in every call of one span type, so the events do
  not carry it.
\<close>

datatype ori_event = Checkout nat nat | Checkin nat nat

text \<open>
  Modelled from the spec: \<^verbatim>\<open>ori::checkout\<close> is declared in ityr/ori/ori.hpp, which is not
  among the sources. By the specification of the checkout interface it returns the
  global pointer cast to a local pointer.
\<close>

definition ori_checkout :: "nat \<Rightarrow> nat \<Rightarrow> nat" where
  "ori_checkout gptr n = gptr"

text \<open>The members \<^verbatim>\<open>ptr_\<close> and \<^verbatim>\<open>n_\<close> of \<^verbatim>\<open>checkout_span\<close>.\<close>

record checkout_span =
  cs_ptr :: nat
  cs_n :: nat

definition checkout_span_default :: checkout_span where
  "checkout_span_default = \<lparr>cs_ptr = 0, cs_n = 0\<rparr>"

text \<open>
  The checking-out constructor: the member initialiser calls \<^verbatim>\<open>ori::checkout\<close> only for
  a non-null pointer and a positive count, and the body asserts that the span is either
  held and non-empty or null and empty. The result is the new span and the trace, or
  \<open>None\<close> when the assertion fails in a checked build.
\<close>

definition checkout_span_ctor ::
  "bool \<Rightarrow> nat \<Rightarrow> nat \<Rightarrow> ori_event list \<Rightarrow> (checkout_span \<times> ori_event list) option" where
  "checkout_span_ctor chk gptr n tr =
     (let (p, tr') = (if gptr \<noteq> 0 \<and> n > 0
                      then (ori_checkout gptr n, tr @ [Checkout gptr n]) else (0, tr))
      in case ITYR_CHECK chk ((p \<noteq> 0 \<and> n > 0) \<or> (p = 0 \<and> n = 0)) of None \<Rightarrow> None
         | Some _ \<Rightarrow> Some (\<lparr>cs_ptr = p, cs_n = n\<rparr>, tr'))"

definition destroy :: "checkout_span \<Rightarrow> ori_event list \<Rightarrow> ori_event list" where
  "destroy cs tr = (if cs_ptr cs \<noteq> 0 then tr @ [Checkin (cs_ptr cs) (cs_n cs)] else tr)"

definition checkout_span_dtor :: "checkout_span \<Rightarrow> ori_event list \<Rightarrow> ori_event list" where
  "checkout_span_dtor cs tr = destroy cs tr"

text \<open>The move constructor: the new span and the moved-from span.\<close>

definition checkout_span_move :: "checkout_span \<Rightarrow> checkout_span \<times> checkout_span" where
  "checkout_span_move cs = (\<lparr>cs_ptr = cs_ptr cs, cs_n = cs_n cs\<rparr>, cs\<lparr>cs_ptr := 0, cs_n := 0\<rparr>)"

text \<open>
  Move assignment \<^verbatim>\<open>dst = std::move(src)\<close> for two distinct objects: the destination
  after the assignment, the moved-from source, and the trace. (Self-assignment is covered
  by the object store below.)
\<close>

definition checkout_span_move_assign ::
  "checkout_span \<Rightarrow> checkout_span \<Rightarrow> ori_event list \<Rightarrow>
     checkout_span \<times> checkout_span \<times> ori_event list" where
  "checkout_span_move_assign dst src tr =
     (let tr' = destroy dst tr;
          dst' = dst\<lparr>cs_ptr := cs_ptr src, cs_n := cs_n src\<rparr>;
          src' = src\<lparr>cs_ptr := 0, cs_n := 0\<rparr>
      in (dst', src', tr'))"

definition data :: "checkout_span \<Rightarrow> nat" where
  "data cs = cs_ptr cs"

definition checkin :: "checkout_span \<Rightarrow> ori_event list \<Rightarrow> checkout_span \<times> ori_event list" where
  "checkin cs tr =
     (if cs_ptr cs \<noteq> 0
      then (cs\<lparr>cs_ptr := 0, cs_n := 0\<rparr>, tr @ [Checkin (cs_ptr cs) (cs_n cs)])
      else (cs, tr))"

text \<open>The member function \<^verbatim>\<open>checkout\<close>, which checks the previous span in first.\<close>

definition checkout_member ::
  "checkout_span \<Rightarrow> nat \<Rightarrow> nat \<Rightarrow> ori_event list \<Rightarrow> checkout_span \<times> ori_event list" where
  "checkout_member cs gptr n tr =
     (let (cs', tr') = checkin cs tr
      in (cs'\<lparr>cs_ptr := ori_checkout gptr n, cs_n := n\<rparr>, tr' @ [Checkout gptr n]))"

subsection \<open>Programs over span objects\<close>

text \<open>
  To follow spans through moves, including an assignment of a span to itself, the span
  objects of a scope live in a store: object \<open>i\<close> is entry \<open>i\<close> of a list, \<open>None\<close> once
  its destructor has run. The copy constructor and copy assignment are deleted in the
  source, so a program has no operation that copies a span. An operation on an object
  that does not exist or whose lifetime has ended is not a C++ program and is \<open>None\<close>,
  as is a failed assertion.
\<close>

record world =
  objs :: "checkout_span option list"
  trace :: "ori_event list"

datatype span_op =
  New nat nat | NewDefault | MoveNew nat | MoveAssign nat nat
  | CheckinOp nat | CheckoutOp nat nat nat | Delete nat

definition live :: "world \<Rightarrow> nat \<Rightarrow> checkout_span option" where
  "live w i = (if i < length (objs w) then objs w ! i else None)"

fun span_step :: "bool \<Rightarrow> span_op \<Rightarrow> world \<Rightarrow> world option" where
  "span_step chk (New gptr n) w =
     (case checkout_span_ctor chk gptr n (trace w) of None \<Rightarrow> None
      | Some (cs, tr) \<Rightarrow> Some \<lparr>objs = objs w @ [Some cs], trace = tr\<rparr>)"
| "span_step chk NewDefault w =
     Some \<lparr>objs = objs w @ [Some checkout_span_default], trace = trace w\<rparr>"
| "span_step chk (MoveNew i) w =
     (case live w i of None \<Rightarrow> None
      | Some cs \<Rightarrow>
        let (new, old) = checkout_span_move cs
        in Some \<lparr>objs = (objs w)[i := Some old] @ [Some new], trace = trace w\<rparr>)"
| "span_step chk (MoveAssign d s) w =
     (case live w d of None \<Rightarrow> None
      | Some dst \<Rightarrow>
        (case live w s of None \<Rightarrow> None
         | Some src \<Rightarrow>
           let tr = destroy dst (trace w);
               os = (objs w)[d := Some (dst\<lparr>cs_ptr := cs_ptr src, cs_n := cs_n src\<rparr>)]
           in (case os ! s of None \<Rightarrow> None
               | Some src' \<Rightarrow>
                 Some \<lparr>objs = os[s := Some (src'\<lparr>cs_ptr := 0, cs_n := 0\<rparr>)], trace = tr\<rparr>)))"
| "span_step chk (CheckinOp i) w =
     (case live w i of None \<Rightarrow> None
      | Some cs \<Rightarrow>
        let (cs', tr) = checkin cs (trace w)
        in Some \<lparr>objs = (objs w)[i := Some cs'], trace = tr\<rparr>)"
| "span_step chk (CheckoutOp i gptr n) w =
     (case live w i of None \<Rightarrow> None
      | Some cs \<Rightarrow>
        let (cs', tr) = checkout_member cs gptr n (trace w)
        in Some \<lparr>objs = (objs w)[i := Some cs'], trace = tr\<rparr>)"
| "span_step chk (Delete i) w =
     (case live w i of None \<Rightarrow> None
      | Some cs \<Rightarrow> Some \<lparr>objs = (objs w)[i := None], trace = checkout_span_dtor cs (trace w)\<rparr>)"

fun span_run :: "bool \<Rightarrow> span_op list \<Rightarrow> world \<Rightarrow> world option" where
  "span_run chk [] w = Some w"
| "span_run chk (x # xs) w =
     (case span_step chk x w of None \<Rightarrow> None | Some w' \<Rightarrow> span_run chk xs w')"

text \<open>
  Leaving the scope, normally or by an exception, runs the destructor of every object
  that is still alive, the youngest first.
\<close>

fun destroy_all :: "checkout_span option list \<Rightarrow> ori_event list \<Rightarrow> ori_event list" where
  "destroy_all [] tr = tr"
| "destroy_all (None # os) tr = destroy_all os tr"
| "destroy_all (Some cs # os) tr = destroy_all os (checkout_span_dtor cs tr)"

definition leave_scope :: "world \<Rightarrow> ori_event list" where
  "leave_scope w = destroy_all (rev (objs w)) (trace w)"

text \<open>
  The regions that the live spans of a store hold, the regions a trace has checked out
  (the pointer returned and the count, for every \<^verbatim>\<open>ori::checkout\<close> that returned a
  pointer) and the regions it has checked in, as multisets.
\<close>

fun held :: "checkout_span option list \<Rightarrow> (nat \<times> nat) multiset" where
  "held [] = {#}"
| "held (None # os) = held os"
| "held (Some cs # os) =
     (if cs_ptr cs \<noteq> 0 then add_mset (cs_ptr cs, cs_n cs) (held os) else held os)"

fun checked_out :: "ori_event list \<Rightarrow> (nat \<times> nat) multiset" where
  "checked_out [] = {#}"
| "checked_out (Checkout g n # es) =
     (if ori_checkout g n \<noteq> 0 then add_mset (ori_checkout g n, n) (checked_out es)
      else checked_out es)"
| "checked_out (Checkin p n # es) = checked_out es"

fun checked_in :: "ori_event list \<Rightarrow> (nat \<times> nat) multiset" where
  "checked_in [] = {#}"
| "checked_in (Checkin p n # es) = add_mset (p, n) (checked_in es)"
| "checked_in (Checkout g n # es) = checked_in es"

text \<open>
  The invariant of a store: every region checked out and not yet checked in is held by
  exactly one live span.
\<close>

definition balanced :: "world \<Rightarrow> bool" where
  "balanced w \<longleftrightarrow> checked_out (trace w) = checked_in (trace w) + held (objs w)"

section \<open>Collective reservation of virtual memory (virtual\_mem.hpp)\<close>

text \<open>
  A mapping of a process is a region: its start address and its length. The address
  space of a process is the list of its mappings, those of the program itself included.
  The kernel's test for \<^verbatim>\<open>MAP_FIXED_NOREPLACE\<close> is \<open>region_overlap\<close>.
\<close>

type_synonym region = "nat \<times> nat"

definition region_overlap :: "region \<Rightarrow> region \<Rightarrow> bool" where
  "region_overlap a b \<longleftrightarrow> fst a < fst b + snd b \<and> fst b < fst a + snd a"

text \<open>
  \<^verbatim>\<open>munmap\<close> removes the range \<open>[a, a + s)\<close> from every mapping, which may cut a mapping
  in two. (The page-alignment assertion of the wrapper and its fatal error on a failing
  system call are left out: the ranges unmapped here are ranges mapped before.)
\<close>

definition cut :: "nat \<Rightarrow> nat \<Rightarrow> region \<Rightarrow> region list" where
  "cut a s r =
     (if fst r < a then [(fst r, min (snd r) (a - fst r))] else []) @
     (if a + s < fst r + snd r then [(max (a + s) (fst r), fst r + snd r - max (a + s) (fst r))]
      else [])"

definition munmap :: "region list \<Rightarrow> nat \<Rightarrow> nat \<Rightarrow> region list" where
  "munmap sp a s = concat (map (cut a s) sp)"

text \<open>
  The class \<^verbatim>\<open>virtual_mem\<close>: the members \<^verbatim>\<open>addr_\<close> (0 is \<^verbatim>\<open>nullptr\<close>) and \<^verbatim>\<open>size_\<close>. The
  default constructor leaves \<^verbatim>\<open>size_\<close> uninitialised; the model takes 0 for it.
\<close>

record virtual_mem =
  vm_addr :: nat
  vm_size :: nat

definition virtual_mem_default :: virtual_mem where
  "virtual_mem_default = \<lparr>vm_addr = 0, vm_size = 0\<rparr>"

definition virtual_mem_destroy :: "virtual_mem \<Rightarrow> region list \<Rightarrow> region list" where
  "virtual_mem_destroy v sp = (if vm_addr v \<noteq> 0 then munmap sp (vm_addr v) (vm_size v) else sp)"

text \<open>
  \<^verbatim>\<open>virtual_mem(addr, size)\<close> maps at a fixed address without replacing; \<open>None\<close> is the
  exception \<^verbatim>\<open>mmap_noreplace_exception\<close> (the error \<^verbatim>\<open>EEXIST\<close>), raised when the range
  overlaps a mapping. Any other failure of this \<^verbatim>\<open>mmap\<close> is fatal in the source; the model
  has none.
\<close>

definition map_fixed :: "region list \<Rightarrow> nat \<Rightarrow> nat \<Rightarrow> region list option" where
  "map_fixed sp a s =
     (if \<exists>r \<in> set sp. region_overlap r (a, s) then None else Some (sp @ [(a, s)]))"

text \<open>
  \<^verbatim>\<open>shrink\<close>, with its two assertions. The parameter \<open>ru\<close> stands for
  \<^verbatim>\<open>round_up_pow2(_, get_page_size())\<close>; both helpers are declared in
  ityr/common/util.hpp, which is not among the sources.
\<close>

definition shrink ::
  "bool \<Rightarrow> (nat \<Rightarrow> nat) \<Rightarrow> nat \<Rightarrow> virtual_mem \<Rightarrow> region list \<Rightarrow>
     (virtual_mem \<times> region list) option" where
  "shrink chk ru to_size v sp =
     (case ITYR_CHECK chk (vm_addr v \<noteq> 0) of None \<Rightarrow> None
      | Some _ \<Rightarrow>
        (case ITYR_CHECK chk (to_size \<le> vm_size v) of None \<Rightarrow> None
         | Some _ \<Rightarrow>
           let curr_page_end = ru (vm_size v);
               next_page_end = ru to_size;
               sp' = (if curr_page_end > next_page_end
                      then munmap sp (sz_add (vm_addr v) next_page_end)
                             (sz_sub curr_page_end next_page_end)
                      else sp)
           in Some (v\<lparr>vm_size := to_size\<rparr>, sp')))"

text \<open>
  One process: its address space and the local variables \<^verbatim>\<open>vm\<close> and \<^verbatim>\<open>prev_vms\<close> of
  \<^verbatim>\<open>reserve_same_vm_coll\<close>. The processes of the communicator are a list, indexed by
  rank; the two collectives (broadcast, all-reduce) make them proceed in lock-step, so a
  round is one function on the list.
\<close>

record proc =
  p_space :: "region list"
  p_vm :: virtual_mem
  p_prev_vms :: "virtual_mem list"

text \<open>
  The environment: what \<^verbatim>\<open>virtual_mem(alloc_size, alignment)\<close> returns in a process, given
  the rank, the address space, the size and the alignment. \<^verbatim>\<open>mmap_no_physical_mem\<close> asks
  the kernel for \<^verbatim>\<open>alloc_size + alignment\<close> bytes at an address of the kernel's choice and
  trims the mapping to the aligned sub-range of \<^verbatim>\<open>alloc_size\<close> bytes; \<open>pick\<close> gives the
  start of that sub-range, or \<open>None\<close> when \<^verbatim>\<open>mmap\<close> fails, which is fatal.
\<close>

type_synonym kernel = "nat \<Rightarrow> region list \<Rightarrow> nat \<Rightarrow> nat \<Rightarrow> nat option"

datatype fatal = MmapFailed | TrialsExhausted | CheckFailed

text \<open>The loop over \<^verbatim>\<open>prev_vms\<close> of a follower: every overlapping entry is unmapped.\<close>

fun unmap_overlapping ::
  "nat \<Rightarrow> nat \<Rightarrow> virtual_mem list \<Rightarrow> region list \<Rightarrow> virtual_mem list \<times> region list" where
  "unmap_overlapping vm_address alloc_size [] sp = ([], sp)"
| "unmap_overlapping vm_address alloc_size (prev_vm # rest) sp =
     (if vm_addr prev_vm < sz_add vm_address alloc_size \<and>
         vm_address < sz_add (vm_addr prev_vm) (vm_size prev_vm)
      then (let (rest', sp') =
                  unmap_overlapping vm_address alloc_size rest (virtual_mem_destroy prev_vm sp)
            in (virtual_mem_default # rest', sp'))
      else (let (rest', sp') = unmap_overlapping vm_address alloc_size rest sp
            in (prev_vm # rest', sp')))"

text \<open>
  The part of a round that a follower runs between the broadcast and the all-reduce: the
  process afterwards and its \<^verbatim>\<open>failed_rank\<close>.
\<close>

definition follower_map :: "nat \<Rightarrow> nat \<Rightarrow> nat \<Rightarrow> proc \<Rightarrow> proc \<times> int" where
  "follower_map my_rank vm_address alloc_size p =
     (let (prevs, sp) = unmap_overlapping vm_address alloc_size (p_prev_vms p) (p_space p)
      in case map_fixed sp vm_address alloc_size of
           None \<Rightarrow> (p\<lparr>p_space := sp, p_prev_vms := prevs\<rparr>, int my_rank)
         | Some sp' \<Rightarrow>
             (p\<lparr>p_space := virtual_mem_destroy (p_vm p) sp',
                p_vm := \<lparr>vm_addr = vm_address, vm_size = alloc_size\<rparr>,
                p_prev_vms := prevs\<rparr>, - 1))"

text \<open>The leader's allocation before the broadcast.\<close>

definition leader_map :: "nat \<Rightarrow> nat \<Rightarrow> proc \<Rightarrow> proc" where
  "leader_map vm_address alloc_size p =
     p\<lparr>p_space := virtual_mem_destroy (p_vm p) (p_space p @ [(vm_address, alloc_size)]),
       p_vm := \<lparr>vm_addr = vm_address, vm_size = alloc_size\<rparr>\<rparr>"

text \<open>After a failed round: \<^verbatim>\<open>if (failed_rank == -1) prev_vms.push_back(std::move(vm))\<close>.\<close>

definition defer_free :: "proc \<times> int \<Rightarrow> proc" where
  "defer_free pf =
     (case pf of (p, failed_rank) \<Rightarrow>
        if failed_rank = - 1
        then p\<lparr>p_prev_vms := p_prev_vms p @ [p_vm p], p_vm := (p_vm p)\<lparr>vm_addr := 0\<rparr>\<rparr>
        else p)"

text \<open>
  After the successful round: \<^verbatim>\<open>vm.shrink(size); return vm;\<close> and the destructors of
  \<^verbatim>\<open>prev_vms\<close>.
\<close>

definition finish :: "bool \<Rightarrow> (nat \<Rightarrow> nat) \<Rightarrow> nat \<Rightarrow> proc \<Rightarrow> proc option" where
  "finish chk ru size' p =
     (case shrink chk ru size' (p_vm p) (p_space p) of None \<Rightarrow> None
      | Some (v, sp) \<Rightarrow>
          Some \<lparr>p_space = fold virtual_mem_destroy (rev (p_prev_vms p)) sp, p_vm = v,
                p_prev_vms = []\<rparr>)"

fun those_procs :: "proc option list \<Rightarrow> proc list option" where
  "those_procs [] = Some []"
| "those_procs (None # ps) = None"
| "those_procs (Some p # ps) = (case those_procs ps of None \<Rightarrow> None | Some qs \<Rightarrow> Some (p # qs))"

text \<open>
  What one round records: the processes at its start, the leader, the allocation size,
  the address broadcast, and the \<^verbatim>\<open>failed_rank\<close> of every rank. The record is not part
  of the program; the claims about the rounds are stated on it.
\<close>

record round_log =
  r_procs :: "proc list"
  r_leader :: nat
  r_alloc :: nat
  r_addr :: nat
  r_failed :: "int list"

definition failed_rank_max :: "int list \<Rightarrow> int" where
  "failed_rank_max fs = fold max fs (- 1)"

datatype round_result = Success "proc list" | Retry nat nat "proc list"

text \<open>
  One iteration of the loop, for all ranks: the leader maps and broadcasts, the others
  map at the address, the all-reduce takes the maximum of the failed ranks; then either
  the processes finish, or they defer and the next leader and size are set. (The first
  test keeps \<open>ps ! leader_rank\<close> defined; the leader is rank 0 or a rank that failed, so
  with at least one process it never fires.)
\<close>

definition reserve_round ::
  "bool \<Rightarrow> kernel \<Rightarrow> (nat \<Rightarrow> nat) \<Rightarrow> nat \<Rightarrow> nat \<Rightarrow> nat \<Rightarrow> nat \<Rightarrow> nat \<Rightarrow> proc list \<Rightarrow>
     fatal + (round_result \<times> round_log)" where
  "reserve_round chk pick ru alignment size' alloc_size_max leader_rank alloc_size ps =
     (if \<not> leader_rank < length ps then Inl CheckFailed
      else case pick leader_rank (p_space (ps ! leader_rank)) alloc_size alignment of
        None \<Rightarrow> Inl MmapFailed
      | Some vm_address \<Rightarrow>
          let pfs = map (\<lambda>(my_rank, p).
                      if my_rank = leader_rank then (leader_map vm_address alloc_size p, - 1)
                      else follower_map my_rank vm_address alloc_size p)
                    (zip [0 ..< length ps] ps);
              lg = \<lparr>r_procs = ps, r_leader = leader_rank, r_alloc = alloc_size, r_addr = vm_address,
                    r_failed = map snd pfs\<rparr>;
              fmax = failed_rank_max (map snd pfs)
          in if fmax = - 1
             then (case those_procs (map (finish chk ru size' \<circ> fst) pfs) of
                     None \<Rightarrow> Inl CheckFailed
                   | Some qs \<Rightarrow> Inr (Success qs, lg))
             else Inr (Retry (nat fmax) (min alloc_size_max (sz_mul 2 alloc_size))
                         (map defer_free pfs), lg))"





subsection \<open>What the records of a run must show\<close>


text \<open>
  A recorded round \<open>y\<close> follows a failed round \<open>x\<close>: some mapping of \<open>x\<close> failed, the leader
  of \<open>y\<close> is the greatest rank whose mapping failed, and the allocation size of \<open>y\<close> is
  twice that of \<open>x\<close> (in \<^verbatim>\<open>size_t\<close>), capped.
\<close>

definition next_round_ok :: "nat \<Rightarrow> round_log \<Rightarrow> round_log \<Rightarrow> bool" where
  "next_round_ok alloc_size_max x y \<longleftrightarrow>
     (\<exists>r<length (r_failed x). r_failed x ! r \<noteq> - 1) \<and>
     r_leader y < length (r_failed x) \<and>
     r_failed x ! r_leader y = int (r_leader y) \<and>
     (\<forall>r<length (r_failed x). r_failed x ! r \<noteq> - 1 \<longrightarrow> r \<le> r_leader y) \<and>
     r_alloc y = min alloc_size_max (sz_mul 2 (r_alloc x)) \<and>
     length (r_procs y) = length (r_procs x)"












section \<open>Parallel reduction (parallel\_reduce\_generic)\<close>

text \<open>
  The reduction template is modelled by the synchronisation calls it makes. The
  accumulator values and the user's operators do not influence which calls are made, so
  \<^verbatim>\<open>for_each_aux\<close> and \<^verbatim>\<open>combine_op\<close> appear as events that carry only the iterator
  positions. Iterators are positions (natural numbers); \<^verbatim>\<open>std::distance(first, last)\<close> is
  \<open>last' - first\<close>, its precondition being \<open>first \<le> last'\<close>.

  A release handler is a value of the runtime; the model takes numbers for them and
  assumes nothing about which numbers the runtime returns. The three lambdas that the
  template passes as callbacks are \<^verbatim>\<open>[=] { ori::acquire(rh); }\<close>, \<^verbatim>\<open>[] { ori::release(); }\<close>
  and \<^verbatim>\<open>[] { ori::acquire(); }\<close>.
\<close>

type_synonym release_handler = nat

datatype callback = Cb_acquire_rh release_handler | Cb_release | Cb_acquire

text \<open>
  One event for each call in the body of \<^verbatim>\<open>parallel_reduce_generic\<close>. \<open>Ito_poll rh\<close> is the
  call of \<^verbatim>\<open>ito::poll\<close>, whose second callback captures \<^verbatim>\<open>rh\<close> by reference.
  \<open>Thread th en ex body\<close> is the construction of the \<^verbatim>\<open>ito::thread\<close> number \<open>th\<close> with the
  callbacks \<open>en\<close> (on enter) and \<open>ex\<close> (on exit); \<open>body\<close> holds the events of the thread's
  function. \<open>Serialized th b\<close> is the call \<^verbatim>\<open>th.serialized()\<close> on that thread with its
  result, \<open>Join th\<close> the call \<^verbatim>\<open>th.join()\<close>. \<open>Release_lazy h\<close> is a call of
  \<^verbatim>\<open>ori::release_lazy\<close> with the handler it returned. \<open>Call rh first last es\<close> is one
  invocation of \<^verbatim>\<open>parallel_reduce_generic\<close> with these arguments, \<open>es\<close> being the events of
  its body in program order.
\<close>

datatype sync_event =
    Ori_poll
  | Ito_poll release_handler
  | For_each_aux nat nat
  | Task_group_begin
  | Thread nat callback callback "sync_event list"
  | Serialized nat bool
  | Join nat
  | Release_lazy release_handler
  | Release
  | Task_group_end callback callback
  | Acquire
  | Combine_op nat nat nat
  | Call release_handler nat nat "sync_event list"

text \<open>
  The state of the runtime, as far as the template can observe it: how often
  \<^verbatim>\<open>ori::release_lazy\<close> has been called and how many threads have been created.
\<close>

record runtime =
  rt_handles :: nat
  rt_threads :: nat

text \<open>
  Modelled from the spec: \<^verbatim>\<open>ori::release_lazy\<close> is declared in ityr/ori/ori.hpp, which is
  not among the sources. By the specification it issues the puts without waiting and
  returns a handle that carries the requests in flight. Which handle a call returns is
  the runtime's choice: the model takes it from a parameter \<open>rl\<close>, the \<open>k\<close>-th call
  returning \<open>rl k\<close>, and nothing is assumed about \<open>rl\<close> (two calls may return the same
  handle). The requests are not modelled.
\<close>

definition ori_release_lazy ::
  "(nat \<Rightarrow> release_handler) \<Rightarrow> runtime \<Rightarrow> release_handler \<times> runtime" where
  "ori_release_lazy rl s = (rl (rt_handles s), s\<lparr>rt_handles := rt_handles s + 1\<rparr>)"

text \<open>
  Modelled from the spec: \<^verbatim>\<open>ito::thread\<close> is declared in ityr/ito/ito.hpp, which is not
  among the sources. By the scheduler contract of the specification a thread is spawned
  with an on-enter callback, an on-exit callback and a body. The model numbers the
  threads in the order of their creation. Whether a thread was serialized is decided by
  the scheduler; the model takes the answers of \<^verbatim>\<open>th.serialized()\<close> as a parameter
  \<open>ser\<close>, a function of the thread's number.
\<close>

definition ito_thread :: "runtime \<Rightarrow> nat \<times> runtime" where
  "ito_thread s = (rt_threads s, s\<lparr>rt_threads := rt_threads s + 1\<rparr>)"

record parallel_policy =
  cutoff_count :: nat
  checkout_count :: nat

definition assert_policy :: "bool \<Rightarrow> parallel_policy \<Rightarrow> unit option" where
  "assert_policy chk opts =
     (case ITYR_CHECK chk (0 < checkout_count opts) of
        None \<Rightarrow> None
      | Some _ \<Rightarrow> ITYR_CHECK chk (checkout_count opts \<le> cutoff_count opts))"

text \<open>
  \<^verbatim>\<open>parallel_reduce_generic\<close> (both overloads make the same calls in the same order). The
  recursion of the source does not end when \<^verbatim>\<open>cutoff_count\<close> is 0 and the range has one
  element, so the model takes the depth of recursion it may use as its first argument
  and returns \<open>None\<close> when that does not suffice. The events of the thread's function are
  placed in the \<open>Thread\<close> event, wherever the scheduler runs that function.
\<close>

fun parallel_reduce_generic ::
  "nat \<Rightarrow> parallel_policy \<Rightarrow> (nat \<Rightarrow> bool) \<Rightarrow> (nat \<Rightarrow> release_handler) \<Rightarrow> release_handler \<Rightarrow>
     nat \<Rightarrow> nat \<Rightarrow> runtime \<Rightarrow> (sync_event \<times> runtime) option" where
  "parallel_reduce_generic 0 policy ser rl rh first last' s = None"
| "parallel_reduce_generic (Suc fuel) policy ser rl rh first last' s =
     (let d = last' - first in
      if d \<le> cutoff_count policy
      then Some (Call rh first last' [Ori_poll, Ito_poll rh, For_each_aux first last'], s)
      else
        let mid = first + d div 2;
            (th, s1) = ito_thread s
        in case parallel_reduce_generic fuel policy ser rl rh first mid s1 of
             None \<Rightarrow> None
           | Some (child, s2) \<Rightarrow>
               if ser th
               then
                 (case parallel_reduce_generic fuel policy ser rl rh mid last' s2 of
                    None \<Rightarrow> None
                  | Some (right, s3) \<Rightarrow>
                      Some (Call rh first last'
                              [Ori_poll, Ito_poll rh, Task_group_begin,
                               Thread th (Cb_acquire_rh rh) Cb_release [child],
                               Serialized th True, Join th, right,
                               Task_group_end Cb_release Cb_acquire], s3))
               else
                 let (rh', s2') = ori_release_lazy rl s2
                 in (case parallel_reduce_generic fuel policy ser rl rh' mid last' s2' of
                       None \<Rightarrow> None
                     | Some (right, s3) \<Rightarrow>
                         Some (Call rh first last'
                                 [Ori_poll, Ito_poll rh, Task_group_begin,
                                  Thread th (Cb_acquire_rh rh) Cb_release [child],
                                  Serialized th False, Release_lazy rh', right, Release,
                                  Join th, Task_group_end Cb_release Cb_acquire, Acquire,
                                  Combine_op first mid last'], s3)))"

text \<open>
  \<^verbatim>\<open>reduce_generic\<close> for a parallel policy: the entry point, which checks the policy and
  obtains the first release handler.
\<close>

datatype reduce_failure = Check_failed | Out_of_fuel

definition reduce_generic ::
  "bool \<Rightarrow> nat \<Rightarrow> parallel_policy \<Rightarrow> (nat \<Rightarrow> bool) \<Rightarrow> (nat \<Rightarrow> release_handler) \<Rightarrow>
     nat \<Rightarrow> nat \<Rightarrow> runtime \<Rightarrow> reduce_failure + (sync_event list \<times> runtime)" where
  "reduce_generic chk fuel policy ser rl first last' s =
     (case assert_policy chk policy of
        None \<Rightarrow> Inl Check_failed
      | Some _ \<Rightarrow>
          let (rh, s1) = ori_release_lazy rl s
          in case parallel_reduce_generic fuel policy ser rl rh first last' s1 of
               None \<Rightarrow> Inl Out_of_fuel
             | Some (c, s2) \<Rightarrow> Inr ([Release_lazy rh, c], s2))"

subsection \<open>What the events of a run must show\<close>

text \<open>All invocations of \<^verbatim>\<open>parallel_reduce_generic\<close> in a run, the nested ones included.\<close>

fun calls :: "sync_event \<Rightarrow> sync_event list" where
  "calls (Call rh first last' es) = Call rh first last' es # concat (map calls es)"
| "calls (Thread th en ex es) = concat (map calls es)"
| "calls e = []"

text \<open>
  The handlers that the calls of \<^verbatim>\<open>ori::release_lazy\<close> returned and the numbers of the
  threads created, in program order.
\<close>

fun lazy_handles :: "sync_event \<Rightarrow> release_handler list" where
  "lazy_handles (Release_lazy h) = [h]"
| "lazy_handles (Call rh first last' es) = concat (map lazy_handles es)"
| "lazy_handles (Thread th en ex es) = concat (map lazy_handles es)"
| "lazy_handles e = []"

fun thread_ids :: "sync_event \<Rightarrow> nat list" where
  "thread_ids (Thread th en ex es) = th # concat (map thread_ids es)"
| "thread_ids (Call rh first last' es) = concat (map thread_ids es)"
| "thread_ids e = []"

fun is_thread :: "sync_event \<Rightarrow> bool" where
  "is_thread (Thread th en ex es) = True"
| "is_thread e = False"

fun call_args :: "sync_event \<Rightarrow> (release_handler \<times> nat \<times> nat) option" where
  "call_args (Call rh first last' es) = Some (rh, first, last')"
| "call_args e = None"

text \<open>
  The thread of a child of an invocation that was given the handler \<open>rh\<close> and the range
  from \<open>first\<close>: its on-enter callback acquires \<open>rh\<close>, its on-exit callback releases, and
  its function is the invocation on the left half with the same handler.
\<close>

fun child_thread :: "release_handler \<Rightarrow> nat \<Rightarrow> nat \<Rightarrow> sync_event \<Rightarrow> bool" where
  "child_thread rh first mid (Thread th en ex es) =
     (en = Cb_acquire_rh rh \<and> ex = Cb_release \<and> map call_args es = [Some (rh, first, mid)])"
| "child_thread rh first mid e = True"

text \<open>
  An invocation on a range above the cutoff spawns one child, and that child is created
  with these callbacks; an invocation on a range within the cutoff spawns none.
\<close>

fun child_spawned :: "parallel_policy \<Rightarrow> sync_event \<Rightarrow> bool" where
  "child_spawned policy (Call rh first last' es) =
     (length (filter is_thread es) = (if last' - first \<le> cutoff_count policy then 0 else 1) \<and>
      list_all (child_thread rh first (first + (last' - first) div 2)) es)"
| "child_spawned policy e = False"

text \<open>The first thread that a list of events creates, and the events after it.\<close>

fun after_thread :: "sync_event list \<Rightarrow> (nat \<times> sync_event list) option" where
  "after_thread [] = None"
| "after_thread (Thread th en ex body # es) = Some (th, es)"
| "after_thread (e # es) = after_thread es"

text \<open>
  Once an invocation has created its thread \<open>th\<close>, its next call is \<^verbatim>\<open>th.serialized()\<close>,
  which returns the scheduler's answer for \<open>th\<close>. If the answer is false, the four calls
  after that are: \<^verbatim>\<open>release_lazy\<close>; the invocation on the right half, with the handler
  that this \<^verbatim>\<open>release_lazy\<close> returned; \<^verbatim>\<open>release\<close>; and the join of \<open>th\<close>.
\<close>

fun migration_handoff :: "(nat \<Rightarrow> bool) \<Rightarrow> sync_event \<Rightarrow> bool" where
  "migration_handoff ser (Call rh first last' es) =
     (case after_thread es of
        None \<Rightarrow> True
      | Some (th, rest) \<Rightarrow>
          1 \<le> length rest \<and> rest ! 0 = Serialized th (ser th) \<and>
          (ser th \<or>
           (5 \<le> length rest \<and>
            (case call_args (rest ! 2) of
               None \<Rightarrow> False
             | Some (h, f, l) \<Rightarrow>
                 rest ! 1 = Release_lazy h \<and>
                 f = first + (last' - first) div 2 \<and> l = last' \<and>
                 rest ! 3 = Release \<and> rest ! 4 = Join th))))"
| "migration_handoff ser e = False"



section \<open>Arithmetic without wrap-around\<close>

lemma wrap_sub: "b \<le> a \<Longrightarrow> a < M \<Longrightarrow> (a + M - b) mod M = a - b" for a b M :: nat
proof -
  assume h: "b \<le> a" "a < M"
  then have e: "a + M - b = (a - b) + M" by simp
  have "a - b < M" using h by simp
  then have "((a - b) + M) mod M = a - b" by simp
  then show ?thesis unfolding e .
qed

lemma wrap_round: "1 \<le> b \<Longrightarrow> a + b \<le> M \<Longrightarrow> 1 < M \<Longrightarrow> ((a + b) mod M + M - 1 mod M) mod M = a + b - 1" for a b M :: nat
proof (cases "a + b = M")
  case True
  assume "1 < M"
  then show ?thesis using True by simp
next
  case False
  assume h: "1 \<le> b" "a + b \<le> M" "1 < M"
  then have lt: "a + b < M" using False by simp
  have e: "(a + b) mod M + M - 1 mod M = (a + b - 1) + M" using h lt by simp
  have "a + b - 1 < M" using lt by simp
  then have "((a + b - 1) + M) mod M = a + b - 1" by simp
  then show ?thesis unfolding e .
qed

lemma sz_add_id: "a + b < 2 ^ 64 \<Longrightarrow> sz_add a b = a + b"
  by (simp add: sz_add_def)

lemma sz_mul_id: "a * b < 2 ^ 64 \<Longrightarrow> sz_mul a b = a * b"
  by (simp add: sz_mul_def)

lemma int_of_sz_id: "x < 2 ^ 31 \<Longrightarrow> int_of_sz x = int x"
  by (simp add: int_of_sz_def)

lemma sz_of_int_nat: "k < 2 ^ 64 \<Longrightarrow> sz_of_int (int k) = k"
proof -
  assume "k < 2 ^ 64"
  then have "int k < 2 ^ 64" by (metis of_nat_less_numeral_power_cancel_iff)
  then show ?thesis by (simp add: sz_of_int_def)
qed

lemma sz_sub_id: "b \<le> a \<Longrightarrow> a < 2 ^ 64 \<Longrightarrow> sz_sub a b = a - b"
proof -
  assume h: "b \<le> a" "a < 2 ^ 64"
  then have "b mod 2 ^ 64 = b" by simp
  then show ?thesis unfolding sz_sub_def using wrap_sub [OF h] by simp
qed

lemma sz_round_id: "1 \<le> b \<Longrightarrow> a + b \<le> 2 ^ 64 \<Longrightarrow> sz_sub (sz_add a b) 1 = a + b - 1"
  unfolding sz_add_def sz_sub_def
  by (rule wrap_round) simp_all


lemma ceil_div: 
  fixes a b :: nat assumes "0 < b" shows "(a + b - 1) div b = nat \<lceil>real a / real b\<rceil>"
proof -
  define q where "q = (a + b - 1) div b"
  have 1: "q * b \<le> a + b - 1" unfolding q_def by simp
  have 2: "a + b - 1 < q * b + b" unfolding q_def using assms
    by (metis add.commute dividend_less_div_times mult.commute)
  have up: "a \<le> q * b" using 2 assms by simp
  have lo: "q * b < a + b" using 1 assms by simp
  have "real a / real b \<le> real q" using up assms
    by (metis  of_nat_le_iff of_nat_mult pos_divide_le_eq of_nat_0_less_iff)
  moreover have "real q - 1 < real a / real b"
  proof -
    have "real (q * b) < real (a + b)" using lo of_nat_less_iff by blast
    then have "(real q - 1) * real b < real a" by (simp add: algebra_simps)
    then show ?thesis using assms by (simp add: pos_less_divide_eq)
  qed
  ultimately have "\<lceil>real a / real b\<rceil> = int q"
    by (intro ceiling_unique) simp_all
  then show ?thesis unfolding q_def by simp
qed

lemma div_le_if: "x < (b + 1) * R \<Longrightarrow> x div R \<le> b" for x b R :: nat
  using less_mult_imp_div_less [of x "b + 1" R] by simp

lemma less_div_if: "0 < R \<Longrightarrow> (b + 1) * R \<le> y \<Longrightarrow> b < y div R" for y b R :: nat
  using div_le_mono [of "(b + 1) * R" y R] by simp

lemma round_lt: "x \<le> c * R \<Longrightarrow> 0 < R \<Longrightarrow> x + R - 1 < (c + 1) * R" for x c R :: nat
proof -
  assume h: "x \<le> c * R" "0 < R"
  have "(c + 1) * R = c * R + R" by (simp add: add_mult_distrib)
  then show ?thesis using h by arith
qed

lemma round_le: "c * R < x \<Longrightarrow> 0 < R \<Longrightarrow> (c + 1) * R \<le> x + R - 1" for x c R :: nat
proof -
  assume h: "c * R < x" "0 < R"
  have "(c + 1) * R = c * R + R" by (simp add: add_mult_distrib)
  then show ?thesis using h by arith
qed

lemma ceil_part_lower:
  fixes b N R :: nat assumes "0 < N" "0 < R"
  shows "((b * R div N) * N + R - 1) div R \<le> b"
proof -
  have "(b * R div N) * N \<le> b * R" by simp
  then have "(b * R div N) * N + R - 1 < (b + 1) * R" using assms(2) by (rule round_lt)
  then show ?thesis by (rule div_le_if)
qed

lemma ceil_part_upper:
  fixes b N R :: nat assumes "0 < N" "0 < R"
  shows "b < ((b * R div N + 1) * N + R - 1) div R"
proof -
  have "b * R < (b * R div N + 1) * N" using assms(1)
    by (metis Suc_eq_plus1 dividend_less_div_times add.commute mult.commute mult_Suc)
  then have "(b + 1) * R \<le> (b * R div N + 1) * N + R - 1" using assms(2) by (rule round_le)
  then show ?thesis using assms(2) by (rule less_div_if [rotated])
qed

lemma ceil_part_bound:
  fixes k N R :: nat assumes "k \<le> R" "0 < R"
  shows "(k * N + R - 1) div R \<le> N"
proof -
  have "k * N \<le> N * R" using assms(1) by (simp add: mult.commute)
  then have "k * N + R - 1 < (N + 1) * R" using assms(2) by (rule round_lt)
  then show ?thesis by (rule div_le_if)
qed

lemma ceil_part_mono:
  fixes k N R :: nat 
  shows "(k * N + R - 1) div R \<le> ((k + 1) * N + R - 1) div R"
  by (rule div_le_mono) simp

lemma floor_part_lower:
  fixes b N R :: nat assumes "0 < N" "0 < R"
  shows "((((b + 1) * R + N - 1) div N - 1) * N) div R \<le> b"
proof -
  define s where "s = ((b + 1) * R + N - 1) div N - 1"
  have "0 * N < (b + 1) * R" using assms(2) by simp
  then have "(0 + 1) * N \<le> (b + 1) * R + N - 1" using assms(1) by (rule round_le)
  then have "0 < ((b + 1) * R + N - 1) div N" using assms(1) by (rule less_div_if [rotated])
  then have "1 \<le> ((b + 1) * R + N - 1) div N" by simp
  then have s1: "s + 1 = ((b + 1) * R + N - 1) div N" unfolding s_def by simp
  have "(s + 1) * N \<le> (b + 1) * R + N - 1" unfolding s1 by simp
  then have "s * N < (b + 1) * R" using assms by simp
  then have "s * N div R \<le> b" by (rule div_le_if)
  then show ?thesis unfolding s_def .
qed

section \<open>The block policy on representable inputs\<close>

lemma in_range_facts:
  assumes "mapper_in_range B sz R"
  defines "N \<equiv> (sz + B - 1) div B"
  shows "1 \<le> B" "sz + B \<le> 2 ^ 64" "1 \<le> R" "R < 2 ^ 31" "N * R + N + R < 2 ^ 64"
    "N * B < 2 ^ 64" "B < 2 ^ 64"
proof -
  show "1 \<le> B" "sz + B \<le> 2 ^ 64" "1 \<le> R" "R < 2 ^ 31" "B < 2 ^ 64"
    using assms(1) by (simp_all add: mapper_in_range_def)
  have "(N + 1) * (R + 1) \<le> 2 ^ 64" using assms(1) unfolding N_def mapper_in_range_def by simp
  moreover have "(N + 1) * (R + 1) = N * R + N + R + 1" by (simp add: algebra_simps)
  ultimately show "N * R + N + R < 2 ^ 64" by simp
  have "N * B \<le> sz + B - 1" unfolding N_def by simp
  then show "N * B < 2 ^ 64" using \<open>1 \<le> B\<close> \<open>sz + B \<le> 2 ^ 64\<close> by simp
qed

lemma block_n_blk:
  assumes "mapper_in_range B sz R"
  shows "n_blk (block B sz (int R) Q) = (sz + B - 1) div B"
proof -
  have "sz_sub (sz_add sz B) 1 = sz + B - 1"
    using in_range_facts(1,2) [OF assms] by (rule sz_round_id)
  then show ?thesis by (simp add: block_def)
qed

lemma block_adws_n_blk:
  assumes "mapper_in_range B sz R"
  shows "n_blk (block_adws B sz (int R) Q) = (sz + B - 1) div B"
proof -
  have "sz_sub (sz_add sz B) 1 = sz + B - 1"
    using in_range_facts(1,2) [OF assms] by (rule sz_round_id)
  then show ?thesis by (simp add: block_adws_def)
qed

lemma block_seg_range:
  assumes r: "mapper_in_range B sz R" and k: "k < R"
  defines "N \<equiv> (sz + B - 1) div B"
  shows "block_get_seg_range (block B sz (int R) Q) (int k) =
           ((k * N + R - 1) div R, ((k + 1) * N + R - 1) div R)"
proof -
  note f = in_range_facts [OF r, folded N_def]
  have nb: "n_blk (block B sz (int R) Q) = N" unfolding N_def using r by (rule block_n_blk)
  have nr: "n_inter_ranks (block B sz (int R) Q) = int R" by (simp add: block_def)
  have R64: "R < 2 ^ 64" using f(4) by simp
  have "k \<le> R" "k + 1 \<le> R" using k by simp_all
  then have "k * N \<le> R * N" "(k + 1) * N \<le> R * N" by (simp_all only: mult_le_mono1)
  then have kN: "k * N \<le> N * R" "(k + 1) * N \<le> N * R" by (simp_all only: mult.commute)
  have k64: "k < 2 ^ 64" "k + 1 < 2 ^ 64" using k R64 by simp_all
  have b1: "k * N < 2 ^ 64" "k * N + R \<le> 2 ^ 64" using kN(1) f(5) by linarith+
  have b2: "(k + 1) * N < 2 ^ 64" "(k + 1) * N + R \<le> 2 ^ 64" using kN(2) f(5) by linarith+
  have m1: "sz_mul k N = k * N" using b1(1) by (rule sz_mul_id)
  have m2: "sz_mul (k + 1) N = (k + 1) * N" using b2(1) by (rule sz_mul_id)
  have r1: "sz_sub (sz_add (k * N) R) 1 = k * N + R - 1"
    using f(3) b1(2) by (rule sz_round_id)
  have r2: "sz_sub (sz_add ((k + 1) * N) R) 1 = (k + 1) * N + R - 1"
    using f(3) b2(2) by (rule sz_round_id)
  have i2: "int k + 1 = int (k + 1)" by simp
  show ?thesis
    unfolding block_get_seg_range_def Let_def nb nr i2
      sz_of_int_nat [OF R64] sz_of_int_nat [OF k64(1)] sz_of_int_nat [OF k64(2)] m1 m2 r1 r2 ..
qed


lemma ITYR_CHECK_True: "ITYR_CHECK chk True = Some ()"
  by (simp add: ITYR_CHECK_def)

lemma block_owner_bounds:
  fixes blk N R :: nat assumes "blk < N" 
  shows "blk * R div N < R \<or> R = 0" "blk * R \<le> N * R"
proof -
  have "blk * R \<le> N * R" using assms by simp
  then show "blk * R \<le> N * R" .
  show "blk * R div N < R \<or> R = 0"
  proof (cases "R = 0")
    case False
    then have "blk * R < N * R" using assms by simp
    then have "blk * R < R * N" by (simp only: mult.commute)
    then have "blk * R div N < R" by (rule less_mult_imp_div_less)
    then show ?thesis ..
  qed simp
qed

lemma block_get_segment_value:
  assumes r: "mapper_in_range B sz R"
  defines "N \<equiv> (sz + B - 1) div B"
  assumes off: "offset < N * B"
  defines "s \<equiv> (offset div B) * R div N"
  shows "block_get_segment chk (block B sz (int R) Q) offset =
           Some \<lparr>owner = int s,
                 offset_b = ((s * N + R - 1) div R) * B,
                 offset_e = (((s + 1) * N + R - 1) div R) * B,
                 pm_offset = 0\<rparr>"
proof -
  note f = in_range_facts [OF r, folded N_def]
  define blk where "blk = offset div B"
  have nb: "n_blk (block B sz (int R) Q) = N" unfolding N_def using r by (rule block_n_blk)
  have nr: "n_inter_ranks (block B sz (int R) Q) = int R" by (simp add: block_def)
  have bs: "BlockSize (block B sz (int R) Q) = B" by (simp add: block_def)
  have R64: "R < 2 ^ 64" using f(4) by simp
  have N0: "0 < N" using off by (cases N) simp_all
  have R0: "0 < R" using f(3) by simp
  have blkN: "blk < N" unfolding blk_def using off
    by (metis less_mult_imp_div_less)
  have sR: "s < R" using block_owner_bounds(1) [OF blkN, of R] R0 unfolding s_def blk_def by simp
  have bR: "blk * R < 2 ^ 64" using block_owner_bounds(2) [OF blkN, of R] f(5) by linarith
  have eff: "block_effective_size (block B sz (int R) Q) = N * B"
    unfolding block_effective_size_def nb bs using f(6) by (rule sz_mul_id)
  have m: "sz_mul blk R = blk * R" using bR by (rule sz_mul_id)
  have s31: "s < 2 ^ 31" using sR f(4) by simp
  have seg: "int_of_sz (sz_mul blk R div N) = int s"
    unfolding m using s31 unfolding s_def blk_def by (rule int_of_sz_id)
  have lo: "(s * N + R - 1) div R \<le> blk" unfolding s_def blk_def using N0 R0 by (rule ceil_part_lower)
  have hi: "blk < ((s + 1) * N + R - 1) div R" unfolding s_def blk_def using N0 R0 by (rule ceil_part_upper)
  have "s \<le> R" "s + 1 \<le> R" using sR by simp_all
  then have e1: "(s * N + R - 1) div R \<le> N" "((s + 1) * N + R - 1) div R \<le> N"
    using R0 by (simp_all only: ceil_part_bound)
  then have "((s * N + R - 1) div R) * B \<le> N * B" "(((s + 1) * N + R - 1) div R) * B \<le> N * B"
    by (simp_all only: mult_le_mono1)
  then have "((s * N + R - 1) div R) * B < 2 ^ 64" "(((s + 1) * N + R - 1) div R) * B < 2 ^ 64"
    using f(6) by linarith+
  then have p: "sz_mul ((s * N + R - 1) div R) B = ((s * N + R - 1) div R) * B"
     "sz_mul (((s + 1) * N + R - 1) div R) B = (((s + 1) * N + R - 1) div R) * B"
    by (simp_all only: sz_mul_id)
  have rng: "block_get_seg_range (block B sz (int R) Q) (int s) =
           ((s * N + R - 1) div R, ((s + 1) * N + R - 1) div R)"
    unfolding N_def using r sR by (rule block_seg_range)
  show ?thesis
    unfolding block_get_segment_def eff nb nr bs sz_of_int_nat [OF R64] Let_def
      blk_def [symmetric] seg rng
    using off lo hi p by (simp add: ITYR_CHECK_def)
qed

lemma block_local_size_value:
  assumes r: "mapper_in_range B sz R" and k: "k < R"
  defines "N \<equiv> (sz + B - 1) div B"
  shows "block_local_size (block B sz (int R) Q) (int k) =
           max 1 (((k + 1) * N + R - 1) div R - (k * N + R - 1) div R) * B"
proof -
  note f = in_range_facts [OF r, folded N_def]
  define b where "b = (k * N + R - 1) div R"
  define e where "e = ((k + 1) * N + R - 1) div R"
  have bs: "BlockSize (block B sz (int R) Q) = B" by (simp add: block_def)
  have rng: "block_get_seg_range (block B sz (int R) Q) (int k) = (b, e)"
    unfolding N_def b_def e_def using r k by (rule block_seg_range [unfolded N_def [symmetric]])
  have be: "b \<le> e" unfolding b_def e_def by (rule ceil_part_mono)
  have R0: "0 < R" using f(3) by simp
  have "k + 1 \<le> R" using k by simp
  then have eN: "e \<le> N" unfolding e_def using R0 by (rule ceil_part_bound)
  have "N * 1 \<le> N * B" using f(1) by (rule mult_le_mono2)
  then have "N \<le> N * B" by (simp only: mult_1_right)
  then have "N < 2 ^ 64" using f(6) by linarith
  then have e64: "e < 2 ^ 64" using eN by simp
  have sub: "sz_sub e b = e - b" using be e64 by (rule sz_sub_id)
  have "max 1 (e - b) * B \<le> max B (N * B)"
  proof (cases "e - b = 0")
    case True then show ?thesis by simp
  next
    case False
    then have a: "max 1 (e - b) = e - b" by simp
    have "e - b \<le> N" using eN by simp
    then have "(e - b) * B \<le> N * B" by (rule mult_le_mono1)
    then show ?thesis unfolding a by arith
  qed
  then have "max 1 (e - b) * B < 2 ^ 64" using f(6,7) by arith
  then have m: "sz_mul (max 1 (e - b)) B = max 1 (e - b) * B" by (rule sz_mul_id)
  have "block_local_size (block B sz (int R) Q) (int k) = max 1 (e - b) * B"
    unfolding block_local_size_def Let_def rng bs prod.case sub m ..
  then show ?thesis unfolding b_def e_def .
qed


lemma blocks_of_multiple: "0 < B \<Longrightarrow> (n * B + B - 1) div B = n" for n B :: nat
proof -
  assume B: "0 < B"
  have "B * Suc n = n * B + B" by simp
  then have "n * B + B - 1 < B * Suc n" using B by linarith
  moreover have "B * n \<le> n * B + B - 1" using B by (simp add: mult.commute)
  ultimately show ?thesis by (intro div_nat_eqI)
qed

lemma in_range_14:
  assumes "1 \<le> B" "15 * B \<le> 2 ^ 64" shows "mapper_in_range B (14 * B) 4"
proof -
  have "(14 * B + B - 1) div B = 14" using blocks_of_multiple [of B 14] assms(1) by simp
  then show ?thesis using assms unfolding mapper_in_range_def by simp
qed

lemma block_example_segments:
  assumes "1 \<le> B" "15 * B \<le> 2 ^ 64"
  shows "block_get_segment chk (block B (14 * B) 4 Q) 0 =
           Some \<lparr>owner = 0, offset_b = 0, offset_e = 4 * B, pm_offset = 0\<rparr>"
    "block_get_segment chk (block B (14 * B) 4 Q) (5 * B) =
           Some \<lparr>owner = 1, offset_b = 4 * B, offset_e = 7 * B, pm_offset = 0\<rparr>"
    "block_get_segment chk (block B (14 * B) 4 Q) (14 * B - 1) =
           Some \<lparr>owner = 3, offset_b = 11 * B, offset_e = 14 * B, pm_offset = 0\<rparr>"
proof -
  have N: "(14 * B + B - 1) div B = 14" using blocks_of_multiple [of B 14] assms(1) by simp
  note r = in_range_14 [OF assms]
  have d: "(14 * B - 1) div B = 13"
    using blocks_of_multiple [of B 13] assms(1) by (simp add: algebra_simps)
  show "block_get_segment chk (block B (14 * B) 4 Q) 0 =
           Some \<lparr>owner = 0, offset_b = 0, offset_e = 4 * B, pm_offset = 0\<rparr>"
    using block_get_segment_value [OF r, of 0 chk Q] assms(1) unfolding N by simp
  show "block_get_segment chk (block B (14 * B) 4 Q) (5 * B) =
           Some \<lparr>owner = 1, offset_b = 4 * B, offset_e = 7 * B, pm_offset = 0\<rparr>"
    using block_get_segment_value [OF r, of "5 * B" chk Q] assms(1) unfolding N by simp
  show "block_get_segment chk (block B (14 * B) 4 Q) (14 * B - 1) =
           Some \<lparr>owner = 3, offset_b = 11 * B, offset_e = 14 * B, pm_offset = 0\<rparr>"
    using block_get_segment_value [OF r, of "14 * B - 1" chk Q] assms(1) unfolding N d by simp
qed

lemma block_example_shares:
  assumes "1 \<le> B" "15 * B \<le> 2 ^ 64"
  shows "map (block_local_size (block B (14 * B) 4 Q)) [0, 1, 2, 3] = [4 * B, 3 * B, 4 * B, 3 * B]"
proof -
  have N: "(14 * B + B - 1) div B = 14" using blocks_of_multiple [of B 14] assms(1) by simp
  note r = in_range_14 [OF assms]
  show ?thesis
    using block_local_size_value [OF r, of 0 Q] block_local_size_value [OF r, of 1 Q]
      block_local_size_value [OF r, of 2 Q] block_local_size_value [OF r, of 3 Q]
    unfolding N by simp
qed

section \<open>The cyclic policy on representable inputs\<close>

lemma cyclic_ctor:
  assumes "1 \<le> B" "B \<le> S" "S mod B = 0"
  shows "cyclic chk B sz R Q S =
           Some \<lparr>BlockSize = B, mem_size = sz, n_inter_ranks = R, n_intra_ranks = Q,
                 n_blk = 0, seg_size = S\<rparr>"
  using assms by (simp add: cyclic_def ITYR_CHECK_def)

lemma cyclic_range_facts:
  assumes "cyclic_in_range S sz R"
  defines "G \<equiv> (sz + S - 1) div S"
  defines "L \<equiv> (G + R - 1) div R"
  shows "1 \<le> S" "sz + S \<le> 2 ^ 64" "1 \<le> R" "R < 2 ^ 31" "G + R \<le> 2 ^ 64"
    "L * S * R < 2 ^ 64" "L * S < 2 ^ 64" "G \<le> L * R"
proof -
  show a: "1 \<le> S" "sz + S \<le> 2 ^ 64" "1 \<le> R" "R < 2 ^ 31"
    using assms(1) by (simp_all add: cyclic_in_range_def)
  have b: "(G + R) * S \<le> 2 ^ 64" using assms(1) unfolding G_def cyclic_in_range_def by simp
  have "(G + R) * 1 \<le> (G + R) * S" using a(1) by (rule mult_le_mono2)
  then have "G + R \<le> (G + R) * S" by (simp only: mult_1_right)
  then show "G + R \<le> 2 ^ 64" using b by linarith
  have R0: "0 < R" using a(3) by simp
  have "L * R \<le> G + R - 1" unfolding L_def by simp
  then have lr: "L * R < G + R" using R0 by simp
  then have "L * R * S < (G + R) * S" using a(1) by simp
  then have "L * R * S < 2 ^ 64" using b by linarith
  then show c: "L * S * R < 2 ^ 64" by (simp add: ac_simps)
  have "L * S * 1 \<le> L * S * R" using a(3) by (rule mult_le_mono2)
  then have "L * S \<le> L * S * R" by (simp only: mult_1_right)
  then show "L * S < 2 ^ 64" using c by linarith
  have "G + R - 1 < L * R + R" unfolding L_def using R0
    by (metis add.commute dividend_less_div_times mult.commute)
  then show "G \<le> L * R" using R0 by simp
qed

lemma cyclic_local_size_value:
  fixes B :: nat and Q :: int
  assumes r: "cyclic_in_range S sz R"
  defines "m \<equiv> \<lparr>BlockSize = B, mem_size = sz, n_inter_ranks = int R, n_intra_ranks = Q,
                 n_blk = 0, seg_size = S\<rparr>"
  shows "cyclic_local_size_impl m = (((sz + S - 1) div S + R - 1) div R) * S"
proof -
  note f = cyclic_range_facts [OF r]
  have R64: "R < 2 ^ 64" using f(4) by simp
  have g: "sz_sub (sz_add sz S) 1 = sz + S - 1" using f(1,2) by (rule sz_round_id)
  have l: "sz_sub (sz_add ((sz + S - 1) div S) R) 1 = (sz + S - 1) div S + R - 1"
    using f(3,5) by (rule sz_round_id)
  have p: "sz_mul (((sz + S - 1) div S + R - 1) div R) S = (((sz + S - 1) div S + R - 1) div R) * S"
    using f(7) by (rule sz_mul_id)
  have sel: "n_inter_ranks m = int R" "mem_size m = sz" "seg_size m = S" by (simp_all add: m_def)
  show ?thesis
    unfolding cyclic_local_size_impl_def Let_def sel sz_of_int_nat [OF R64] g l p ..
qed

lemma cyclic_effective_size_value:
  fixes B :: nat and Q :: int
  assumes r: "cyclic_in_range S sz R"
  defines "m \<equiv> \<lparr>BlockSize = B, mem_size = sz, n_inter_ranks = int R, n_intra_ranks = Q,
                 n_blk = 0, seg_size = S\<rparr>"
  shows "cyclic_effective_size m = (((sz + S - 1) div S + R - 1) div R) * S * R"
proof -
  note f = cyclic_range_facts [OF r]
  have R64: "R < 2 ^ 64" using f(4) by simp
  have sel: "n_inter_ranks m = int R" by (simp add: m_def)
  have l: "cyclic_local_size_impl m = (((sz + S - 1) div S + R - 1) div R) * S"
    unfolding m_def using r by (rule cyclic_local_size_value)
  show ?thesis
    unfolding cyclic_effective_size_def l sel sz_of_int_nat [OF R64] using f(6) by (rule sz_mul_id)
qed

lemma cyclic_get_segment_value:
  fixes B :: nat and Q :: int
  assumes r: "cyclic_in_range S sz R"
  defines "m \<equiv> \<lparr>BlockSize = B, mem_size = sz, n_inter_ranks = int R, n_intra_ranks = Q,
                 n_blk = 0, seg_size = S\<rparr>"
  assumes off: "offset < cyclic_effective_size m"
  defines "g \<equiv> offset div S"
  shows "cyclic_get_segment chk m offset =
           Some \<lparr>owner = int (g mod R), offset_b = g * S, offset_e = (g + 1) * S,
                 pm_offset = (g div R) * S\<rparr>"
proof -
  note f = cyclic_range_facts [OF r]
  define L where "L = ((sz + S - 1) div S + R - 1) div R"
  have R64: "R < 2 ^ 64" using f(4) by simp
  have R0: "0 < R" using f(3) by simp
  have sel: "n_inter_ranks m = int R" "seg_size m = S" by (simp_all add: m_def)
  have eff: "cyclic_effective_size m = L * S * R"
    unfolding m_def L_def using r by (rule cyclic_effective_size_value)
  have "offset < (L * R) * S" using off unfolding eff by (simp add: ac_simps)
  then have gLR: "g < L * R" unfolding g_def by (rule less_mult_imp_div_less)
  then have "(g + 1) * S \<le> (L * R) * S" by (intro mult_le_mono1) simp
  then have "(g + 1) * S \<le> L * S * R" by (simp only: ac_simps)
  then have b1: "(g + 1) * S < 2 ^ 64" using f(6) [folded L_def] by linarith
  have "g * S \<le> (g + 1) * S" by simp
  then have b0: "g * S < 2 ^ 64" using b1 by linarith
  have "(g div R) * S \<le> g * S" by (intro mult_le_mono1) simp
  then have b2: "(g div R) * S < 2 ^ 64" using b0 by linarith
  have "(g + 1) * 1 \<le> (g + 1) * S" using f(1) by (rule mult_le_mono2)
  then have "g + 1 \<le> (g + 1) * S" by (simp only: mult_1_right)
  then have b3: "g + 1 < 2 ^ 64" using b1 by linarith
  have "g mod R < R" using R0 by simp
  then have b4: "g mod R < 2 ^ 31" using f(4) by simp
  have e: "sz_add g 1 = g + 1" using b3 by (rule sz_add_id)
  have p: "sz_mul g S = g * S" "sz_mul (g + 1) S = (g + 1) * S" "sz_mul (g div R) S = (g div R) * S"
    using b0 b1 b2 by (simp_all only: sz_mul_id)
  have o: "int_of_sz (g mod R) = int (g mod R)" using b4 by (rule int_of_sz_id)
  have c: "ITYR_CHECK chk (offset < cyclic_effective_size m) = Some ()"
    using off by (simp add: ITYR_CHECK_def)
  show ?thesis
    unfolding cyclic_get_segment_def c option.case Let_def sel sz_of_int_nat [OF R64]
      g_def [symmetric] e p o ..
qed

section \<open>The reverse-block policy on representable inputs\<close>

lemma floor_part_upper:
  fixes b N R :: nat assumes "0 < N" "0 < R"
  shows "b < ((((b + 1) * R + N - 1) div N - 1 + 1) * N) div R"
proof -
  define q where "q = ((b + 1) * R + N - 1) div N"
  have "0 * N < (b + 1) * R" using assms(2) by simp
  then have "(0 + 1) * N \<le> (b + 1) * R + N - 1" using assms(1) by (rule round_le)
  then have "0 < q" unfolding q_def using assms(1) by (rule less_div_if [rotated])
  then have q1: "q - 1 + 1 = q" by simp
  have "(b + 1) * R + N - 1 < q * N + N" unfolding q_def using assms(1)
    by (metis add.commute dividend_less_div_times mult.commute)
  then have "(b + 1) * R \<le> q * N" using assms(1) by simp
  then have "b < q * N div R" using assms(2) by (rule less_div_if [rotated])
  then have "b < (q - 1 + 1) * N div R" unfolding q1 .
  then show ?thesis unfolding q_def .
qed

lemma adws_seg_bounds:
  fixes blk N R :: nat assumes "blk < N" "0 < R"
  shows "1 \<le> ((blk + 1) * R + N - 1) div N" "((blk + 1) * R + N - 1) div N \<le> R"
proof -
  have N0: "0 < N" using assms(1) by simp
  have "0 * N < (blk + 1) * R" using assms(2) by simp
  then have "(0 + 1) * N \<le> (blk + 1) * R + N - 1" using N0 by (rule round_le)
  then have "0 < ((blk + 1) * R + N - 1) div N" using N0 by (rule less_div_if [rotated])
  then show "1 \<le> ((blk + 1) * R + N - 1) div N" by simp
  have "blk + 1 \<le> N" using assms(1) by simp
  then have "(blk + 1) * R \<le> N * R" by (rule mult_le_mono1)
  then have "(blk + 1) * R \<le> R * N" by (simp only: mult.commute)
  then have "(blk + 1) * R + N - 1 < (R + 1) * N" using N0 by (rule round_lt)
  then show "((blk + 1) * R + N - 1) div N \<le> R" by (rule div_le_if)
qed

lemma floor_part_bound:
  fixes k N R :: nat assumes "k \<le> R" "0 < R"
  shows "k * N div R \<le> N"
proof -
  have "k * N \<le> R * N" using assms(1) by (rule mult_le_mono1)
  then have "k * N div R \<le> R * N div R" by (rule div_le_mono)
  then show ?thesis using assms(2) by simp
qed

lemma floor_part_mono:
  fixes k N R :: nat shows "k * N div R \<le> (k + 1) * N div R"
  by (rule div_le_mono) simp

lemma block_adws_seg_range:
  assumes r: "mapper_in_range B sz R" and k: "k < R"
  defines "N \<equiv> (sz + B - 1) div B"
  shows "block_adws_get_seg_range (block_adws B sz (int R) Q) (int k) =
           (k * N div R, (k + 1) * N div R)"
proof -
  note f = in_range_facts [OF r, folded N_def]
  have nb: "n_blk (block_adws B sz (int R) Q) = N" unfolding N_def using r by (rule block_adws_n_blk)
  have nr: "n_inter_ranks (block_adws B sz (int R) Q) = int R" by (simp add: block_adws_def)
  have R64: "R < 2 ^ 64" using f(4) by simp
  have "k \<le> R" "k + 1 \<le> R" using k by simp_all
  then have "k * N \<le> R * N" "(k + 1) * N \<le> R * N" by (simp_all only: mult_le_mono1)
  then have kN: "k * N \<le> N * R" "(k + 1) * N \<le> N * R" by (simp_all only: mult.commute)
  have k64: "k < 2 ^ 64" "k + 1 < 2 ^ 64" using k R64 by simp_all
  have b1: "k * N < 2 ^ 64" using kN(1) f(5) by linarith
  have b2: "(k + 1) * N < 2 ^ 64" using kN(2) f(5) by linarith
  have m1: "sz_mul k N = k * N" using b1 by (rule sz_mul_id)
  have m2: "sz_mul (k + 1) N = (k + 1) * N" using b2 by (rule sz_mul_id)
  have i2: "int k + 1 = int (k + 1)" by simp
  show ?thesis
    unfolding block_adws_get_seg_range_def Let_def nb nr i2
      sz_of_int_nat [OF R64] sz_of_int_nat [OF k64(1)] sz_of_int_nat [OF k64(2)] m1 m2 ..
qed

lemma block_adws_get_segment_value:
  assumes r: "mapper_in_range B sz R"
  defines "N \<equiv> (sz + B - 1) div B"
  assumes off: "offset < N * B"
  defines "s \<equiv> ((offset div B + 1) * R + N - 1) div N - 1"
  shows "block_adws_get_segment chk (block_adws B sz (int R) Q) offset =
           Some \<lparr>owner = int R - int s - 1,
                 offset_b = (s * N div R) * B,
                 offset_e = ((s + 1) * N div R) * B,
                 pm_offset = 0\<rparr>"
    and "s < R"
proof -
  note f = in_range_facts [OF r, folded N_def]
  define blk where "blk = offset div B"
  define q where "q = ((blk + 1) * R + N - 1) div N"
  have nb: "n_blk (block_adws B sz (int R) Q) = N" unfolding N_def using r by (rule block_adws_n_blk)
  have nr: "n_inter_ranks (block_adws B sz (int R) Q) = int R" by (simp add: block_adws_def)
  have bs: "BlockSize (block_adws B sz (int R) Q) = B" by (simp add: block_adws_def)
  have R64: "R < 2 ^ 64" using f(4) by simp
  have N0: "0 < N" using off by (cases N) simp_all
  have R0: "0 < R" using f(3) by simp
  have blkN: "blk < N" unfolding blk_def using off by (metis less_mult_imp_div_less)
  note qb = adws_seg_bounds [OF blkN R0, folded q_def]
  have s: "s = q - 1" unfolding s_def q_def blk_def ..
  show sR: "s < R" unfolding s using qb by simp
  have "blk + 1 \<le> N" using blkN by simp
  then have "(blk + 1) * R \<le> N * R" by (rule mult_le_mono1)
  then have b1: "(blk + 1) * R < 2 ^ 64" "(blk + 1) * R + N \<le> 2 ^ 64" using f(5) by linarith+
  have "N * 1 \<le> N * B" using f(1) by (rule mult_le_mono2)
  then have "N \<le> N * B" by (simp only: mult_1_right)
  then have N64: "N < 2 ^ 64" using f(6) by linarith
  have a1: "sz_add blk 1 = blk + 1" using blkN N64 by (intro sz_add_id) simp
  have m: "sz_mul (blk + 1) R = (blk + 1) * R" using b1(1) by (rule sz_mul_id)
  have "1 \<le> N" using N0 by simp
  then have rd: "sz_sub (sz_add ((blk + 1) * R) N) 1 = (blk + 1) * R + N - 1"
    using b1(2) by (rule sz_round_id)
  have q64: "q < 2 ^ 64" using qb(2) R64 by simp
  have sb: "sz_sub q 1 = q - 1" using qb(1) q64 by (rule sz_sub_id)
  have s31: "s < 2 ^ 31" using sR f(4) by simp
  have seg: "int_of_sz (sz_sub (sz_sub (sz_add (sz_mul (sz_add blk 1) R) N) 1 div N) 1) = int s"
    unfolding a1 m rd q_def [symmetric] sb s [symmetric] using s31 by (rule int_of_sz_id)
  have lo: "s * N div R \<le> blk" unfolding s_def blk_def using N0 R0 by (rule floor_part_lower)
  have hi: "blk < (s + 1) * N div R" unfolding s_def blk_def using N0 R0 by (rule floor_part_upper)
  have "s \<le> R" "s + 1 \<le> R" using sR by simp_all
  then have e1: "s * N div R \<le> N" "(s + 1) * N div R \<le> N"
    using R0 by (simp_all only: floor_part_bound)
  then have "(s * N div R) * B \<le> N * B" "((s + 1) * N div R) * B \<le> N * B"
    by (simp_all only: mult_le_mono1)
  then have "(s * N div R) * B < 2 ^ 64" "((s + 1) * N div R) * B < 2 ^ 64"
    using f(6) by linarith+
  then have p: "sz_mul (s * N div R) B = (s * N div R) * B"
     "sz_mul ((s + 1) * N div R) B = ((s + 1) * N div R) * B"
    by (simp_all only: sz_mul_id)
  have eff: "block_adws_effective_size (block_adws B sz (int R) Q) = N * B"
    unfolding block_adws_effective_size_def nb bs using f(6) by (rule sz_mul_id)
  have rng: "block_adws_get_seg_range (block_adws B sz (int R) Q) (int s) =
           (s * N div R, (s + 1) * N div R)"
    unfolding N_def using r sR by (rule block_adws_seg_range)
  show "block_adws_get_segment chk (block_adws B sz (int R) Q) offset =
           Some \<lparr>owner = int R - int s - 1,
                 offset_b = (s * N div R) * B,
                 offset_e = ((s + 1) * N div R) * B,
                 pm_offset = 0\<rparr>"
    unfolding block_adws_get_segment_def eff nb nr bs sz_of_int_nat [OF R64] Let_def
      blk_def [symmetric] seg rng
    using off lo hi p by (simp add: ITYR_CHECK_def)
qed

lemma block_adws_local_size_value:
  assumes r: "mapper_in_range B sz R" and k: "k < R"
  defines "N \<equiv> (sz + B - 1) div B"
  shows "block_adws_local_size (block_adws B sz (int R) Q) (int k) =
           max 1 ((R - 1 - k + 1) * N div R - (R - 1 - k) * N div R) * B"
proof -
  note f = in_range_facts [OF r, folded N_def]
  define j where "j = R - 1 - k"
  define b where "b = j * N div R"
  define e where "e = (j + 1) * N div R"
  have jR: "j < R" unfolding j_def using k by simp
  have sid: "int R - int k - 1 = int j" unfolding j_def using k by simp
  have bs: "BlockSize (block_adws B sz (int R) Q) = B" by (simp add: block_adws_def)
  have nr: "n_inter_ranks (block_adws B sz (int R) Q) = int R" by (simp add: block_adws_def)
  have rng: "block_adws_get_seg_range (block_adws B sz (int R) Q) (int j) = (b, e)"
    unfolding N_def b_def e_def using r jR by (rule block_adws_seg_range [unfolded N_def [symmetric]])
  have be: "b \<le> e" unfolding b_def e_def by (rule floor_part_mono)
  have R0: "0 < R" using f(3) by simp
  have "j + 1 \<le> R" using jR by simp
  then have eN: "e \<le> N" unfolding e_def using R0 by (rule floor_part_bound)
  have "N * 1 \<le> N * B" using f(1) by (rule mult_le_mono2)
  then have "N \<le> N * B" by (simp only: mult_1_right)
  then have "N < 2 ^ 64" using f(6) by linarith
  then have e64: "e < 2 ^ 64" using eN by simp
  have sub: "sz_sub e b = e - b" using be e64 by (rule sz_sub_id)
  have "max 1 (e - b) * B \<le> max B (N * B)"
  proof (cases "e - b = 0")
    case True then show ?thesis by simp
  next
    case False
    then have a: "max 1 (e - b) = e - b" by simp
    have "e - b \<le> N" using eN by simp
    then have "(e - b) * B \<le> N * B" by (rule mult_le_mono1)
    then show ?thesis unfolding a by arith
  qed
  then have "max 1 (e - b) * B < 2 ^ 64" using f(6,7) by arith
  then have m: "sz_mul (max 1 (e - b)) B = max 1 (e - b) * B" by (rule sz_mul_id)
  have "block_adws_local_size (block_adws B sz (int R) Q) (int k) = max 1 (e - b) * B"
    unfolding block_adws_local_size_def Let_def nr sid rng bs prod.case sub m ..
  then show ?thesis unfolding b_def e_def j_def .
qed

lemma range_contains:
  fixes lo hi B offset :: nat
  assumes "0 < B" "lo \<le> offset div B" "offset div B < hi"
  shows "lo * B \<le> offset \<and> offset < hi * B \<and> (hi * B - lo * B) mod B = 0"
proof -
  have "lo * B \<le> (offset div B) * B" using assms(2) by (rule mult_le_mono1)
  moreover have "(offset div B) * B \<le> offset" by simp
  ultimately have 1: "lo * B \<le> offset" by (rule le_trans)
  have "offset div B + 1 \<le> hi" using assms(3) by simp
  then have "(offset div B + 1) * B \<le> hi * B" by (rule mult_le_mono1)
  moreover have "offset < (offset div B + 1) * B" using assms(1)
    by (metis Suc_eq_plus1 dividend_less_div_times add.commute mult.commute mult_Suc)
  ultimately have 2: "offset < hi * B" by linarith
  have "hi * B - lo * B = (hi - lo) * B" by (simp add: diff_mult_distrib)
  then have 3: "(hi * B - lo * B) mod B = 0" by simp
  show ?thesis using 1 2 3 by blast
qed

lemma block_segment_invariant:
  assumes r: "mapper_in_range B sz R"
    and off: "offset < block_effective_size (block B sz (int R) Q)"
  shows "\<exists>seg. block_get_segment chk (block B sz (int R) Q) offset = Some seg \<and>
           offset_b seg \<le> offset \<and> offset < offset_e seg \<and>
           (offset_e seg - offset_b seg) mod B = 0"
proof -
  note f = in_range_facts [OF r]
  define N where "N = (sz + B - 1) div B"
  define s where "s = (offset div B) * R div N"
  have nb: "n_blk (block B sz (int R) Q) = N" unfolding N_def using r by (rule block_n_blk)
  have bs: "BlockSize (block B sz (int R) Q) = B" by (simp add: block_def)
  have eff: "block_effective_size (block B sz (int R) Q) = N * B"
    unfolding block_effective_size_def nb bs using f(6) [folded N_def] by (rule sz_mul_id)
  have o: "offset < N * B" using off unfolding eff .
  have N0: "0 < N" using o by (cases N) simp_all
  have R0: "0 < R" and B0: "0 < B" using f(1,3) by simp_all
  have v: "block_get_segment chk (block B sz (int R) Q) offset =
           Some \<lparr>owner = int s,
                 offset_b = ((s * N + R - 1) div R) * B,
                 offset_e = (((s + 1) * N + R - 1) div R) * B,
                 pm_offset = 0\<rparr>"
    unfolding s_def N_def using r o [unfolded N_def] by (rule block_get_segment_value)
  have lo: "(s * N + R - 1) div R \<le> offset div B" unfolding s_def using N0 R0 by (rule ceil_part_lower)
  have hi: "offset div B < ((s + 1) * N + R - 1) div R" unfolding s_def using N0 R0 by (rule ceil_part_upper)
  show ?thesis unfolding v using range_contains [OF B0 lo hi] by simp
qed

lemma block_adws_segment_invariant:
  assumes r: "mapper_in_range B sz R"
    and off: "offset < block_adws_effective_size (block_adws B sz (int R) Q)"
  shows "\<exists>seg. block_adws_get_segment chk (block_adws B sz (int R) Q) offset = Some seg \<and>
           offset_b seg \<le> offset \<and> offset < offset_e seg \<and>
           (offset_e seg - offset_b seg) mod B = 0"
proof -
  note f = in_range_facts [OF r]
  define N where "N = (sz + B - 1) div B"
  define s where "s = ((offset div B + 1) * R + N - 1) div N - 1"
  have nb: "n_blk (block_adws B sz (int R) Q) = N" unfolding N_def using r by (rule block_adws_n_blk)
  have bs: "BlockSize (block_adws B sz (int R) Q) = B" by (simp add: block_adws_def)
  have eff: "block_adws_effective_size (block_adws B sz (int R) Q) = N * B"
    unfolding block_adws_effective_size_def nb bs using f(6) [folded N_def] by (rule sz_mul_id)
  have o: "offset < N * B" using off unfolding eff .
  have N0: "0 < N" using o by (cases N) simp_all
  have R0: "0 < R" and B0: "0 < B" using f(1,3) by simp_all
  have v: "block_adws_get_segment chk (block_adws B sz (int R) Q) offset =
           Some \<lparr>owner = int R - int s - 1,
                 offset_b = (s * N div R) * B,
                 offset_e = ((s + 1) * N div R) * B,
                 pm_offset = 0\<rparr>"
    unfolding s_def N_def using r o [unfolded N_def] by (rule block_adws_get_segment_value(1))
  have lo: "s * N div R \<le> offset div B" unfolding s_def using N0 R0 by (rule floor_part_lower)
  have hi: "offset div B < (s + 1) * N div R" unfolding s_def using N0 R0 by (rule floor_part_upper)
  show ?thesis unfolding v using range_contains [OF B0 lo hi] by simp
qed

lemma cyclic_segment_invariant:
  fixes B :: nat and Q :: int
  assumes s: "S mod B = 0" and r: "cyclic_in_range S sz R"
  defines "m \<equiv> \<lparr>BlockSize = B, mem_size = sz, n_inter_ranks = int R, n_intra_ranks = Q,
                 n_blk = 0, seg_size = S\<rparr>"
  assumes off: "offset < cyclic_effective_size m"
  shows "\<exists>seg. cyclic_get_segment chk m offset = Some seg \<and>
           offset_b seg \<le> offset \<and> offset < offset_e seg \<and>
           (offset_e seg - offset_b seg) mod B = 0"
proof -
  note f = cyclic_range_facts [OF r]
  have S0: "0 < S" using f(1) by simp
  have v: "cyclic_get_segment chk m offset =
           Some \<lparr>owner = int (offset div S mod R), offset_b = offset div S * S,
                 offset_e = (offset div S + 1) * S, pm_offset = (offset div S div R) * S\<rparr>"
    unfolding m_def using r off [unfolded m_def] by (rule cyclic_get_segment_value)
  have c: "offset div S * S \<le> offset \<and> offset < (offset div S + 1) * S \<and>
        ((offset div S + 1) * S - offset div S * S) mod S = 0"
    using S0 by (intro range_contains) simp_all
  have "(offset div S + 1) * S - offset div S * S = S" by simp
  then have "((offset div S + 1) * S - offset div S * S) mod B = 0" using s by simp
  then show ?thesis unfolding v using c by simp
qed

subsection \<open>Consecutive ranges partition their span\<close>

lemma consecutive_mono:
  fixes c :: "nat \<Rightarrow> nat"
  assumes "\<forall>k<R. c k \<le> c (k + 1)" "j \<le> k" "k \<le> R"
  shows "c j \<le> c k"
  using assms(2,3)
proof (induction k)
  case 0 then show ?case by simp
next
  case (Suc k)
  show ?case
  proof (cases "j = Suc k")
    case True then show ?thesis by simp
  next
    case False
    then have "j \<le> k" using Suc.prems by simp
    then have "c j \<le> c k" using Suc by simp
    moreover have "c k \<le> c (k + 1)" using assms(1) Suc.prems by simp
    ultimately show ?thesis by simp
  qed
qed

lemma consecutive_union:
  fixes c :: "nat \<Rightarrow> nat"
  assumes "\<forall>k<R. c k \<le> c (k + 1)"
  shows "(\<Union>k<R. {c k ..< c (k + 1)}) = {c 0 ..< c R}"
  using assms
proof (induction R)
  case 0 then show ?case by simp
next
  case (Suc R)
  then have m: "\<forall>k<R. c k \<le> c (k + 1)" by simp
  have a: "c 0 \<le> c R" using consecutive_mono [OF m, of 0 R] by simp
  have b: "c R \<le> c (Suc R)" using Suc.prems by simp
  have "(\<Union>k<Suc R. {c k ..< c (k + 1)}) = (\<Union>k<R. {c k ..< c (k + 1)}) \<union> {c R ..< c (Suc R)}"
    by (simp add: lessThan_Suc Un_commute)
  also have "\<dots> = {c 0 ..< c R} \<union> {c R ..< c (Suc R)}" using Suc.IH [OF m] by simp
  also have "\<dots> = {c 0 ..< c (Suc R)}" using a b by (rule ivl_disj_un_two(3))
  finally show ?case .
qed

lemma consecutive_disjoint:
  fixes c :: "nat \<Rightarrow> nat"
  assumes m: "\<forall>k<R. c k \<le> c (k + 1)" and "j < R" "k < R" "j \<noteq> k"
  shows "{c j ..< c (j + 1)} \<inter> {c k ..< c (k + 1)} = {}"
proof (cases "j < k")
  case True
  then have "c (j + 1) \<le> c k" using consecutive_mono [OF m, of "j + 1" k] assms(3) by simp
  then show ?thesis by auto
next
  case False
  then have "k < j" using assms(4) by simp
  then have "c (k + 1) \<le> c j" using consecutive_mono [OF m, of "k + 1" j] assms(2) by simp
  then show ?thesis by auto
qed

lemma partition_unique:
  assumes "(\<Union>k<R. A k) = U" "\<forall>j<R. \<forall>k<R. j \<noteq> k \<longrightarrow> A j \<inter> A k = {}" "x \<in> U"
  shows "\<exists>!k. k < (R::nat) \<and> x \<in> A k"
proof -
  obtain k where k: "k < R" "x \<in> A k" using assms(1,3) by blast
  have "j = k" if "j < R" "x \<in> A j" for j
  proof (rule ccontr)
    assume "j \<noteq> k"
    then have "A j \<inter> A k = {}" using assms(2) that(1) k(1) by blast
    then show False using that(2) k(2) by blast
  qed
  then show ?thesis using k by blast
qed

lemma partition_of_boundaries:
  fixes c :: "nat \<Rightarrow> nat" and rng :: "nat \<Rightarrow> nat \<times> nat"
  assumes rng: "\<forall>k<R. rng k = (c k, c (k + 1))"
    and m: "\<forall>k<R. c k \<le> c (k + 1)" and c0: "c 0 = 0" and cR: "c R = N"
  shows "(\<Union>k<R. case rng k of (b, e) \<Rightarrow> {b * B ..< e * B}) = {0 ..< N * B} \<and>
         (\<forall>j<R. \<forall>k<R. j \<noteq> k \<longrightarrow>
            (case rng j of (b, e) \<Rightarrow> {b * B ..< e * B}) \<inter>
            (case rng k of (b, e) \<Rightarrow> {b * B ..< e * B}) = {}) \<and>
         (\<forall>offset<N * B. \<exists>!k. k < R \<and> (case rng k of (b, e) \<Rightarrow> b * B \<le> offset \<and> offset < e * B))"
proof -
  define A where "A k = (case rng k of (b, e) \<Rightarrow> {b * B ..< e * B})" for k
  define d where "d k = c k * B" for k
  have A: "A k = {d k ..< d (k + 1)}" if "k < R" for k
    unfolding A_def d_def using rng that by simp
  have dm: "\<forall>k<R. d k \<le> d (k + 1)" unfolding d_def using m by simp
  have "(\<Union>k<R. A k) = (\<Union>k<R. {d k ..< d (k + 1)})" using A by simp
  also have "\<dots> = {d 0 ..< d R}" using dm by (rule consecutive_union)
  finally have 1: "(\<Union>k<R. A k) = {0 ..< N * B}" unfolding d_def c0 cR by simp
  have 2: "\<forall>j<R. \<forall>k<R. j \<noteq> k \<longrightarrow> A j \<inter> A k = {}"
    using consecutive_disjoint [OF dm] A by simp
  have 3: "\<forall>offset<N * B. \<exists>!k. k < R \<and> (case rng k of (b, e) \<Rightarrow> b * B \<le> offset \<and> offset < e * B)"
  proof (intro allI impI)
    fix offset assume "offset < N * B"
    then have "offset \<in> {0 ..< N * B}" by simp
    then have "\<exists>!k. k < R \<and> offset \<in> A k" using 1 2 by (intro partition_unique) 
    moreover have "offset \<in> A k \<longleftrightarrow> (case rng k of (b, e) \<Rightarrow> b * B \<le> offset \<and> offset < e * B)" for k
      unfolding A_def by (cases "rng k") simp
    ultimately show "\<exists>!k. k < R \<and> (case rng k of (b, e) \<Rightarrow> b * B \<le> offset \<and> offset < e * B)"
      by simp
  qed
  show ?thesis using 1 2 3 unfolding A_def by blast
qed

subsection \<open>The floor partition is the mirror image of the ceiling partition\<close>

lemma floor_is_mirrored_ceil:
  fixes k N R :: nat assumes "k \<le> R" "0 < R"
  shows "k * N div R = N - ((R - k) * N + R - 1) div R"
proof -
  define x where "x = (R - k) * N"
  define q where "q = (x + R - 1) div R"
  have "R - k \<le> R" by simp
  then have qN: "q \<le> N" unfolding q_def x_def using assms(2) by (rule ceil_part_bound)
  have "q * R \<le> x + R - 1" unfolding q_def by simp
  then have u: "R * q < x + R" using assms(2) by (simp add: mult.commute)
  have "x + R - 1 < q * R + R" unfolding q_def using assms(2)
    by (metis add.commute dividend_less_div_times mult.commute)
  then have l: "x \<le> R * q" using assms(2) by (simp add: mult.commute)
  have "k * N + x = (k + (R - k)) * N" unfolding x_def by (simp only: add_mult_distrib)
  then have s: "k * N + x = R * N" using assms(1) by simp
  have rq: "R * q \<le> R * N" using qN by (rule mult_le_mono2)
  have e1: "R * (N - q) = R * N - R * q" by (rule diff_mult_distrib2)
  have e2: "R * Suc (N - q) = R * N - R * q + R" unfolding mult_Suc_right e1 by simp
  have "R * (N - q) \<le> k * N" unfolding e1 using s l rq by linarith
  moreover have "k * N < R * Suc (N - q)" unfolding e2 using s u rq by linarith
  ultimately have "k * N div R = N - q" by (rule div_nat_eqI)
  then show ?thesis unfolding q_def x_def .
qed

lemma adws_owner_is_mirrored_block_owner:
  fixes blk N R :: nat assumes "blk < N" "0 < R"
  shows "int R - int (((blk + 1) * R + N - 1) div N - 1) - 1 = int ((N - 1 - blk) * R div N)"
proof -
  define q where "q = ((blk + 1) * R + N - 1) div N"
  have N0: "0 < N" using assms(1) by simp
  note qb = adws_seg_bounds [OF assms, folded q_def]
  have "N - 1 - blk \<le> N" by simp
  then have "(N - 1 - blk) * R div N = R - ((N - (N - 1 - blk)) * R + N - 1) div N"
    using N0 by (rule floor_is_mirrored_ceil)
  moreover have "N - (N - 1 - blk) = blk + 1" using assms(1) by simp
  ultimately have "(N - 1 - blk) * R div N = R - q" unfolding q_def by simp
  then show ?thesis unfolding q_def [symmetric] using qb by simp
qed

lemma adws_owner_reflects_when_divides:
  fixes blk N R :: nat assumes "blk < N" "0 < R" "R dvd N"
  shows "int R - int (((blk + 1) * R + N - 1) div N - 1) - 1 = int R - int (blk * R div N) - 1"
proof -
  obtain t where t: "N = R * t" using assms(3) by (auto simp: dvd_def)
  have t0: "0 < t" using assms(1) t by (cases t) simp_all
  have "(blk + 1) * R + R * t - 1 = (blk + t) * R + R - 1" by (simp add: algebra_simps)
  then have "((blk + 1) * R + R * t - 1) div R = blk + t"
    using blocks_of_multiple [OF assms(2), of "blk + t"] by simp
  then have "((blk + 1) * R + R * t - 1) div (R * t) = (blk + t) div t"
    by (simp add: div_mult2_eq)
  then have a: "((blk + 1) * R + N - 1) div N = blk div t + 1" unfolding t using t0 by simp
  have "blk * R div (R * t) = (blk * R div R) div t" by (rule div_mult2_eq)
  then have b: "blk * R div N = blk div t" unfolding t using assms(2) by simp
  show ?thesis unfolding a b by simp
qed

lemma adws_share_is_block_share:
  fixes k N R :: nat assumes "k < R"
  shows "(R - 1 - k + 1) * N div R - (R - 1 - k) * N div R =
         ((k + 1) * N + R - 1) div R - (k * N + R - 1) div R"
proof -
  have R0: "0 < R" using assms by simp
  have j1: "R - 1 - k + 1 = R - k" using assms by simp
  have j0: "R - 1 - k = R - (k + 1)" by simp
  have "R - k \<le> R" by simp
  then have a: "(R - k) * N div R = N - ((R - (R - k)) * N + R - 1) div R"
    using R0 by (rule floor_is_mirrored_ceil)
  have "R - (k + 1) \<le> R" by simp
  then have b: "(R - (k + 1)) * N div R = N - ((R - (R - (k + 1))) * N + R - 1) div R"
    using R0 by (rule floor_is_mirrored_ceil)
  have c: "R - (R - k) = k" "R - (R - (k + 1)) = k + 1" using assms by simp_all
  have "k + 1 \<le> R" using assms by simp
  then have "((k + 1) * N + R - 1) div R \<le> N" using R0 by (rule ceil_part_bound)
  moreover have "(k * N + R - 1) div R \<le> ((k + 1) * N + R - 1) div R" by (rule ceil_part_mono)
  ultimately show ?thesis unfolding j1 unfolding j0 a b c by simp
qed

lemma reverse_block_mirror_at:
  assumes r: "mapper_in_range B sz R"
  defines "N \<equiv> (sz + B - 1) div B"
  assumes off: "offset < N * B"
  shows "\<exists>sa sb.
           block_adws_get_segment chk (block_adws B sz (int R) Q) offset = Some sa \<and>
           block_get_segment chk (block B sz (int R) Q) ((N - 1 - offset div B) * B) = Some sb \<and>
           owner sa = owner sb \<and>
           offset_b sa = N * B - offset_e sb \<and> offset_e sa = N * B - offset_b sb"
proof -
  note f = in_range_facts [OF r, folded N_def]
  have B0: "0 < B" and R0: "0 < R" using f(1,3) by simp_all
  define blk where "blk = offset div B"
  define s where "s = ((blk + 1) * R + N - 1) div N - 1"
  define j where "j = (N - 1 - blk) * R div N"
  have blkN: "blk < N" unfolding blk_def using off by (metis less_mult_imp_div_less)
  have N0: "0 < N" using blkN by simp
  have va: "block_adws_get_segment chk (block_adws B sz (int R) Q) offset =
           Some \<lparr>owner = int R - int s - 1, offset_b = (s * N div R) * B,
                 offset_e = ((s + 1) * N div R) * B, pm_offset = 0\<rparr>"
    and sR: "s < R"
    unfolding s_def blk_def N_def
    using block_adws_get_segment_value [OF r off [unfolded N_def]] by simp_all
  have "N - 1 - blk < N" using N0 by simp
  then have "(N - 1 - blk) * B < N * B" using B0 by simp
  then have mo: "(N - 1 - blk) * B < (sz + B - 1) div B * B" unfolding N_def .
  have md: "(N - 1 - blk) * B div B = N - 1 - blk" using B0 by simp
  have vb: "block_get_segment chk (block B sz (int R) Q) ((N - 1 - blk) * B) =
           Some \<lparr>owner = int j, offset_b = ((j * N + R - 1) div R) * B,
                 offset_e = (((j + 1) * N + R - 1) div R) * B, pm_offset = 0\<rparr>"
    using block_get_segment_value [OF r mo, of chk Q, folded N_def, unfolded md] unfolding j_def .
  have ow: "int R - int s - 1 = int j"
    unfolding s_def j_def using blkN R0 by (rule adws_owner_is_mirrored_block_owner)
  then have js: "j = R - 1 - s" using sR by linarith
  have j1: "R - s = j + 1" "R - (s + 1) = j" unfolding js using sR by simp_all
  have "s \<le> R" using sR by simp
  then have lo: "s * N div R = N - ((j + 1) * N + R - 1) div R"
    using floor_is_mirrored_ceil [of s R N] R0 unfolding j1 by simp
  have "s + 1 \<le> R" using sR by simp
  then have hi: "(s + 1) * N div R = N - (j * N + R - 1) div R"
    using floor_is_mirrored_ceil [of "s + 1" R N] R0 unfolding j1 by simp
  have d: "(N - x) * B = N * B - x * B" for x by (rule diff_mult_distrib)
  show ?thesis unfolding blk_def [symmetric] va vb lo hi d using ow by simp
qed

lemma reverse_block_reflects_at:
  assumes r: "mapper_in_range B sz R"
  defines "N \<equiv> (sz + B - 1) div B"
  assumes off: "offset < N * B" and dv: "R dvd N"
  shows "\<exists>sa sb.
           block_adws_get_segment chk (block_adws B sz (int R) Q) offset = Some sa \<and>
           block_get_segment chk (block B sz (int R) Q) offset = Some sb \<and>
           owner sa = int R - owner sb - 1"
proof -
  note f = in_range_facts [OF r, folded N_def]
  have B0: "0 < B" and R0: "0 < R" using f(1,3) by simp_all
  define blk where "blk = offset div B"
  have blkN: "blk < N" unfolding blk_def using off by (metis less_mult_imp_div_less)
  have va: "block_adws_get_segment chk (block_adws B sz (int R) Q) offset =
           Some \<lparr>owner = int R - int (((blk + 1) * R + N - 1) div N - 1) - 1,
                 offset_b = ((((blk + 1) * R + N - 1) div N - 1) * N div R) * B,
                 offset_e = (((((blk + 1) * R + N - 1) div N - 1) + 1) * N div R) * B,
                 pm_offset = 0\<rparr>"
    unfolding blk_def N_def
    using block_adws_get_segment_value(1) [OF r off [unfolded N_def]] .
  have vb: "block_get_segment chk (block B sz (int R) Q) offset =
           Some \<lparr>owner = int (blk * R div N),
                 offset_b = (((blk * R div N) * N + R - 1) div R) * B,
                 offset_e = ((((blk * R div N) + 1) * N + R - 1) div R) * B, pm_offset = 0\<rparr>"
    unfolding blk_def N_def
    using block_get_segment_value [OF r off [unfolded N_def]] .
  show ?thesis unfolding va vb
    using adws_owner_reflects_when_divides [OF blkN R0 dv] by simp
qed

lemma reverse_block_local_size:
  assumes r: "mapper_in_range B sz R" and k: "k < R"
  shows "block_adws_local_size (block_adws B sz (int R) Q) (int k) =
         block_local_size (block B sz (int R) Q') (int k)"
  unfolding block_adws_local_size_value [OF r k] block_local_size_value [OF r k]
    adws_share_is_block_share [OF k] ..

subsection \<open>An input on which the block policy wraps\<close>

lemma block_wrapped_segment:
  "block_effective_size (block 65536 (2 ^ 62) 1048576 1) = 2 ^ 62"
  "block_get_segment False (block 65536 (2 ^ 62) 1048576 1) (2 ^ 61) =
     Some \<lparr>owner = 0, offset_b = 0, offset_e = 2 ^ 42, pm_offset = 0\<rparr>"
  "block_get_segment True (block 65536 (2 ^ 62) 1048576 1) (2 ^ 61) = None"
proof -
  define m where "m = block 65536 (2 ^ 62) 1048576 1"
  have nb: "n_blk m = 2 ^ 46" by (simp add: m_def block_def sz_add_def sz_sub_def)
  have nr: "n_inter_ranks m = 1048576" by (simp add: m_def block_def)
  have bs: "BlockSize m = 65536" by (simp add: m_def block_def)
  have eff: "block_effective_size m = 2 ^ 62" unfolding block_effective_size_def nb bs
    by (simp add: sz_mul_def)
  have blk: "(2 ^ 61 :: nat) div 65536 = 2 ^ 45" by simp
  have seg: "int_of_sz (sz_mul (2 ^ 45) (sz_of_int 1048576) div 2 ^ 46) = 0"
    by (simp add: sz_mul_def sz_of_int_def int_of_sz_def)
  have rng: "block_get_seg_range m 0 = (0, 2 ^ 26)"
    unfolding block_get_seg_range_def nb nr
    by (simp add: sz_add_def sz_sub_def sz_mul_def sz_of_int_def)
  have p: "sz_mul 0 65536 = 0" "sz_mul (2 ^ 26) 65536 = 2 ^ 42" by (simp_all add: sz_mul_def)
  have c: "ITYR_CHECK chk ((2::nat) ^ 61 < 2 ^ 62) = Some ()"
    "ITYR_CHECK chk ((0::nat) \<le> 2 ^ 45) = Some ()"
    "ITYR_CHECK False ((2::nat) ^ 45 < 2 ^ 26) = Some ()"
    "ITYR_CHECK True ((2::nat) ^ 45 < 2 ^ 26) = None" for chk
    by (simp_all add: ITYR_CHECK_def)
  show "block_effective_size (block 65536 (2 ^ 62) 1048576 1) = 2 ^ 62"
    using eff unfolding m_def .
  have "block_get_segment False m (2 ^ 61) =
     Some \<lparr>owner = 0, offset_b = 0, offset_e = 2 ^ 42, pm_offset = 0\<rparr>"
    unfolding block_get_segment_def eff bs blk nb nr Let_def seg rng prod.case c p option.case ..
  then show "block_get_segment False (block 65536 (2 ^ 62) 1048576 1) (2 ^ 61) =
     Some \<lparr>owner = 0, offset_b = 0, offset_e = 2 ^ 42, pm_offset = 0\<rparr>"
    unfolding m_def .
  have "block_get_segment True m (2 ^ 61) = None"
    unfolding block_get_segment_def eff bs blk nb nr Let_def seg rng prod.case c p option.case ..
  then show "block_get_segment True (block 65536 (2 ^ 62) 1048576 1) (2 ^ 61) = None"
    unfolding m_def .
qed

section \<open>Claims about the memory mapper\<close>

text \<open>
  Claim C1, amended. On representable inputs (\<open>mapper_in_range\<close>) the block policy with
  \<open>N = \<lceil>size/B\<rceil>\<close> blocks and \<open>R\<close> ranks maps every offset \<open>o < N * B\<close> to the owner
  \<open>r = \<lfloor>(o/B) * R / N\<rfloor>\<close>, the range \<open>[\<lceil>r * N/R\<rceil> * B, \<lceil>(r+1) * N/R\<rceil> * B)\<close> and the physical
  offset 0, in checked and in unchecked builds alike; the local size of every rank \<open>r < R\<close>
  is \<open>max 1 (\<lceil>(r+1) * N/R\<rceil> - \<lceil>r * N/R\<rceil>) * B\<close>; and for \<open>size = 14 * B\<close>, \<open>R = 4\<close> the
  segments at 0, \<open>5 * B\<close>, \<open>14 * B - 1\<close> and the four local sizes are the ones the
  specification lists.
\<close>

theorem block_mapping_in_range:
  fixes B sz R :: nat
  assumes r: "mapper_in_range B sz R"
  defines "N \<equiv> nat \<lceil>real sz / real B\<rceil>"
  shows "(\<forall>offset<N * B.
            block_get_segment chk (block B sz (int R) Q) offset =
              (let r = offset div B * R div N
               in Some \<lparr>owner = int r,
                        offset_b = nat \<lceil>real (r * N) / real R\<rceil> * B,
                        offset_e = nat \<lceil>real ((r + 1) * N) / real R\<rceil> * B,
                        pm_offset = 0\<rparr>)) \<and>
         (\<forall>r<R. block_local_size (block B sz (int R) Q) (int r) =
                  max 1 (nat \<lceil>real ((r + 1) * N) / real R\<rceil> - nat \<lceil>real (r * N) / real R\<rceil>) * B) \<and>
         (sz = 14 * B \<and> R = 4 \<longrightarrow>
            block_get_segment chk (block B sz (int R) Q) 0 =
              Some \<lparr>owner = 0, offset_b = 0, offset_e = 4 * B, pm_offset = 0\<rparr> \<and>
            block_get_segment chk (block B sz (int R) Q) (5 * B) =
              Some \<lparr>owner = 1, offset_b = 4 * B, offset_e = 7 * B, pm_offset = 0\<rparr> \<and>
            block_get_segment chk (block B sz (int R) Q) (14 * B - 1) =
              Some \<lparr>owner = 3, offset_b = 11 * B, offset_e = 14 * B, pm_offset = 0\<rparr> \<and>
            map (block_local_size (block B sz (int R) Q)) [0, 1, 2, 3] =
              [4 * B, 3 * B, 4 * B, 3 * B])"
proof -
  note f = in_range_facts [OF r]
  have B0: "0 < B" and R0: "0 < R" using f(1,3) by simp_all
  have N: "N = (sz + B - 1) div B" unfolding N_def using B0 by (rule ceil_div [symmetric])
  have c: "nat \<lceil>real x / real R\<rceil> = (x + R - 1) div R" for x
    using R0 by (rule ceil_div [symmetric])
  have 1: "\<forall>offset<N * B.
            block_get_segment chk (block B sz (int R) Q) offset =
              (let r = offset div B * R div N
               in Some \<lparr>owner = int r,
                        offset_b = nat \<lceil>real (r * N) / real R\<rceil> * B,
                        offset_e = nat \<lceil>real ((r + 1) * N) / real R\<rceil> * B,
                        pm_offset = 0\<rparr>)"
    unfolding Let_def c N using block_get_segment_value [OF r] by blast
  have 2: "\<forall>r<R. block_local_size (block B sz (int R) Q) (int r) =
                  max 1 (nat \<lceil>real ((r + 1) * N) / real R\<rceil> - nat \<lceil>real (r * N) / real R\<rceil>) * B"
    unfolding c N using block_local_size_value [OF r] by blast
  have 3: "block_get_segment chk (block B sz (int R) Q) 0 =
              Some \<lparr>owner = 0, offset_b = 0, offset_e = 4 * B, pm_offset = 0\<rparr> \<and>
            block_get_segment chk (block B sz (int R) Q) (5 * B) =
              Some \<lparr>owner = 1, offset_b = 4 * B, offset_e = 7 * B, pm_offset = 0\<rparr> \<and>
            block_get_segment chk (block B sz (int R) Q) (14 * B - 1) =
              Some \<lparr>owner = 3, offset_b = 11 * B, offset_e = 14 * B, pm_offset = 0\<rparr> \<and>
            map (block_local_size (block B sz (int R) Q)) [0, 1, 2, 3] =
              [4 * B, 3 * B, 4 * B, 3 * B]" if h: "sz = 14 * B \<and> R = 4"
  proof -
    have b: "1 \<le> B" "15 * B \<le> 2 ^ 64" using f(1,2) h by simp_all
    have i: "int R = 4" using h by simp
    show ?thesis unfolding i using block_example_segments [OF b] block_example_shares [OF b] h
      by simp
  qed
  show ?thesis using 1 2 3 by blast
qed

theorem block_mapping_in_range_witness:
  "mapper_in_range 65536 (14 * 65536) 4 \<and>
   block_get_segment True (block 65536 (14 * 65536) 4 1) (5 * 65536 + 7) =
     Some \<lparr>owner = 1, offset_b = 4 * 65536, offset_e = 7 * 65536, pm_offset = 0\<rparr> \<and>
   block_local_size (block 65536 (14 * 65536) 4 1) 2 = 4 * 65536 \<and>
   block_get_segment True (block 65536 (14 * 65536) 4 1) (14 * 65536 - 1) =
     Some \<lparr>owner = 3, offset_b = 11 * 65536, offset_e = 14 * 65536, pm_offset = 0\<rparr>"
proof -
  have r: "mapper_in_range 65536 (14 * 65536) 4" by (simp add: mapper_in_range_def)
  have n: "nat \<lceil>real (14 * 65536) / real 65536\<rceil> = 14" by simp
  have c: "nat \<lceil>real (1 * 14) / real 4\<rceil> = 4" "nat \<lceil>real ((1 + 1) * 14) / real 4\<rceil> = 7"
    "nat \<lceil>real (2 * 14) / real 4\<rceil> = 7" "nat \<lceil>real ((2 + 1) * 14) / real 4\<rceil> = 11"
    by (simp_all add: ceil_div [symmetric])
  have d: "(5 * 65536 + 7) div 65536 * 4 div 14 = (1::nat)" by simp
  note t = block_mapping_in_range [OF r, of True 1, unfolded n]
  have "block_get_segment True (block 65536 (14 * 65536) 4 1) (5 * 65536 + 7) =
     Some \<lparr>owner = 1, offset_b = 4 * 65536, offset_e = 7 * 65536, pm_offset = 0\<rparr>"
    using t [THEN conjunct1, rule_format, of "5 * 65536 + 7"] unfolding Let_def d c by simp
  moreover have "block_local_size (block 65536 (14 * 65536) 4 1) 2 = 4 * 65536"
    using t [THEN conjunct2, THEN conjunct1, rule_format, of 2] unfolding c by simp
  moreover have "block_get_segment True (block 65536 (14 * 65536) 4 1) (14 * 65536 - 1) =
     Some \<lparr>owner = 3, offset_b = 11 * 65536, offset_e = 14 * 65536, pm_offset = 0\<rparr>"
    using t [THEN conjunct2, THEN conjunct2] by simp
  ultimately show ?thesis using r by blast
qed

text \<open>
  Claim C1 as stated, for every size and rank count, fails where the product of block
  index and rank count wraps: with \<open>B = 65536\<close>, \<open>size = 2 ^ 62\<close> and \<open>R = 2 ^ 20\<close> the
  offset \<open>2 ^ 61\<close> is below \<open>N * B\<close>, the stated owner is \<open>2 ^ 19\<close>, and the code computes
  owner 0 with the range \<open>[0, 2 ^ 42)\<close> in an unchecked build and fails its own range check
  in a checked one.
\<close>

theorem block_mapping_wraps:
  "(2::nat) ^ 61 < nat \<lceil>real (2 ^ 62) / real 65536\<rceil> * 65536 \<and>
   (2::nat) ^ 61 div 65536 * 1048576 div nat \<lceil>real (2 ^ 62) / real 65536\<rceil> = 524288 \<and>
   block_get_segment False (block 65536 (2 ^ 62) 1048576 1) (2 ^ 61) =
     Some \<lparr>owner = 0, offset_b = 0, offset_e = 2 ^ 42, pm_offset = 0\<rparr> \<and>
   block_get_segment True (block 65536 (2 ^ 62) 1048576 1) (2 ^ 61) = None"
proof -
  have n: "nat \<lceil>real (2 ^ 62) / real 65536\<rceil> = 2 ^ 46" by (simp add: ceil_div [symmetric])
  have 3: "(2::nat) ^ 61 < 2 ^ 46 * 65536" by simp
  have 4: "(2::nat) ^ 61 div 65536 * 1048576 div 2 ^ 46 = 524288" by simp
  show ?thesis unfolding n using block_wrapped_segment(2,3) 3 4 by blast
qed

text \<open>
  Claim C2, amended. For the cyclic policy with a segment size \<open>S\<close> that is a multiple of
  the block size, on representable inputs (\<open>cyclic_in_range\<close>): the constructor's checks
  pass; every offset \<open>o\<close> below the effective size maps to owner \<open>g mod R\<close>, range
  \<open>[g * S, (g+1) * S)\<close> and physical offset \<open>(g div R) * S\<close> with \<open>g = o div S\<close>; every
  rank's local size is \<open>\<lceil>\<lceil>size/S\<rceil>/R\<rceil> * S\<close>; and with 4 ranks, \<open>size = 12 * S\<close> and
  \<open>S > 2\<close> the segment at \<open>5 * S + 2\<close> is owner 1, \<open>[5 * S, 6 * S)\<close>, physical offset \<open>S\<close>,
  and every local size is \<open>3 * S\<close>.
\<close>

theorem cyclic_mapping_in_range:
  fixes B S sz R :: nat and Q :: int
  assumes s: "1 \<le> B" "B \<le> S" "S mod B = 0" and r: "cyclic_in_range S sz R"
  defines "m \<equiv> \<lparr>BlockSize = B, mem_size = sz, n_inter_ranks = int R, n_intra_ranks = Q,
                 n_blk = 0, seg_size = S\<rparr>"
  shows "cyclic chk B sz (int R) Q S = Some m \<and>
         (\<forall>offset<cyclic_effective_size m.
            cyclic_get_segment chk m offset =
              (let g = offset div S
               in Some \<lparr>owner = int (g mod R), offset_b = g * S, offset_e = (g + 1) * S,
                        pm_offset = (g div R) * S\<rparr>)) \<and>
         (\<forall>r<R. cyclic_local_size m (int r) =
                  nat \<lceil>real (nat \<lceil>real sz / real S\<rceil>) / real R\<rceil> * S) \<and>
         (R = 4 \<and> sz = 12 * S \<and> 2 < S \<longrightarrow>
            cyclic_get_segment chk m (5 * S + 2) =
              Some \<lparr>owner = 1, offset_b = 5 * S, offset_e = 6 * S, pm_offset = S\<rparr> \<and>
            (\<forall>r<R. cyclic_local_size m (int r) = 3 * S))"
proof -
  note f = cyclic_range_facts [OF r]
  have S0: "0 < S" and R0: "0 < R" using f(1,3) by simp_all
  have 0: "cyclic chk B sz (int R) Q S = Some m" unfolding m_def using s by (rule cyclic_ctor)
  have 1: "\<forall>offset<cyclic_effective_size m.
            cyclic_get_segment chk m offset =
              (let g = offset div S
               in Some \<lparr>owner = int (g mod R), offset_b = g * S, offset_e = (g + 1) * S,
                        pm_offset = (g div R) * S\<rparr>)"
    unfolding Let_def m_def using cyclic_get_segment_value [OF r] by blast
  have l: "cyclic_local_size m k = ((sz + S - 1) div S + R - 1) div R * S" for k
    unfolding cyclic_local_size_def m_def using r by (rule cyclic_local_size_value)
  have c: "nat \<lceil>real (nat \<lceil>real sz / real S\<rceil>) / real R\<rceil> = ((sz + S - 1) div S + R - 1) div R"
    unfolding ceil_div [OF S0, symmetric] ceil_div [OF R0, symmetric] ..
  have 2: "\<forall>r<R. cyclic_local_size m (int r) =
                  nat \<lceil>real (nat \<lceil>real sz / real S\<rceil>) / real R\<rceil> * S"
    unfolding c l by simp
  have 3: "cyclic_get_segment chk m (5 * S + 2) =
              Some \<lparr>owner = 1, offset_b = 5 * S, offset_e = 6 * S, pm_offset = S\<rparr> \<and>
            (\<forall>r<R. cyclic_local_size m (int r) = 3 * S)"
    if h: "R = 4 \<and> sz = 12 * S \<and> 2 < S"
  proof -
    have G: "(sz + S - 1) div S = 12" using blocks_of_multiple [OF S0, of 12] h by simp
    have e: "cyclic_effective_size m = 12 * S"
      unfolding m_def cyclic_effective_size_value [OF r] G using h by simp
    have g: "(5 * S + 2) div S = 5" using h by (intro div_nat_eqI) simp_all
    have lt: "5 * S + 2 < cyclic_effective_size m" unfolding e using h by simp
    have R4: "R = 4" using h by simp
    have "cyclic_get_segment chk m (5 * S + 2) =
              Some \<lparr>owner = 1, offset_b = 5 * S, offset_e = 6 * S, pm_offset = S\<rparr>"
      using 1 [rule_format, OF lt] unfolding Let_def g R4 by simp
    moreover have "\<forall>r<R. cyclic_local_size m (int r) = 3 * S"
      unfolding l G using h by simp
    ultimately show ?thesis by blast
  qed
  show ?thesis using 0 1 2 3 by blast
qed

theorem cyclic_mapping_in_range_witness:
  "cyclic_in_range 131072 (12 * 131072) 4 \<and>
   cyclic True 65536 (12 * 131072) 4 1 131072 =
     Some \<lparr>BlockSize = 65536, mem_size = 12 * 131072, n_inter_ranks = 4, n_intra_ranks = 1,
           n_blk = 0, seg_size = 131072\<rparr> \<and>
   cyclic_get_segment True
     \<lparr>BlockSize = 65536, mem_size = 12 * 131072, n_inter_ranks = 4, n_intra_ranks = 1,
      n_blk = 0, seg_size = 131072\<rparr> (5 * 131072 + 2) =
     Some \<lparr>owner = 1, offset_b = 5 * 131072, offset_e = 6 * 131072, pm_offset = 131072\<rparr> \<and>
   cyclic_local_size
     \<lparr>BlockSize = 65536, mem_size = 12 * 131072, n_inter_ranks = 4, n_intra_ranks = 1,
      n_blk = 0, seg_size = 131072\<rparr> 3 = 3 * 131072"
proof -
  have r: "cyclic_in_range 131072 (12 * 131072) 4" by (simp add: cyclic_in_range_def)
  have s: "(1::nat) \<le> 65536" "(65536::nat) \<le> 131072" "(131072::nat) mod 65536 = 0" by simp_all
  note t = cyclic_mapping_in_range [OF s r, of True 1]
  have h: "(4::nat) = 4 \<and> (12 * 131072 :: nat) = 12 * 131072 \<and> (2::nat) < 131072" by simp
  note e = t [THEN conjunct2, THEN conjunct2, THEN conjunct2, rule_format, OF h]
  have "cyclic_local_size
     \<lparr>BlockSize = 65536, mem_size = 12 * 131072, n_inter_ranks = 4, n_intra_ranks = 1,
      n_blk = 0, seg_size = 131072\<rparr> 3 = 3 * 131072"
    using e [THEN conjunct2, rule_format, of 3] by simp
  then show ?thesis using r t [THEN conjunct1] e [THEN conjunct1] by simp
qed

text \<open>
  Claim C2 as stated fails at two kinds of input. With \<open>S = B = 2\<close>, 4 ranks and
  \<open>size = 12 * S\<close> the offset \<open>5 * S + 2\<close> is the start of segment 6, so the segment is
  owner 2 and \<open>[12, 14)\<close>, not owner 1 and \<open>[5 * S, 6 * S)\<close>. With \<open>S = B = 65536\<close>, 4 ranks
  and \<open>size = 2 ^ 64 - 1\<close> the rounding \<open>size + S - 1\<close> wraps and the local size is 0, not
  \<open>\<lceil>\<lceil>size/S\<rceil>/R\<rceil> * S = 2 ^ 62\<close>.
\<close>

theorem cyclic_mapping_fails:
  "cyclic True 2 (12 * 2) 4 1 2 =
     Some \<lparr>BlockSize = 2, mem_size = 24, n_inter_ranks = 4, n_intra_ranks = 1,
           n_blk = 0, seg_size = 2\<rparr> \<and>
   cyclic_get_segment True
     \<lparr>BlockSize = 2, mem_size = 24, n_inter_ranks = 4, n_intra_ranks = 1,
      n_blk = 0, seg_size = 2\<rparr> (5 * 2 + 2) =
     Some \<lparr>owner = 2, offset_b = 12, offset_e = 14, pm_offset = 2\<rparr> \<and>
   cyclic True 65536 (2 ^ 64 - 1) 4 1 65536 =
     Some \<lparr>BlockSize = 65536, mem_size = 2 ^ 64 - 1, n_inter_ranks = 4, n_intra_ranks = 1,
           n_blk = 0, seg_size = 65536\<rparr> \<and>
   cyclic_local_size
     \<lparr>BlockSize = 65536, mem_size = 2 ^ 64 - 1, n_inter_ranks = 4, n_intra_ranks = 1,
      n_blk = 0, seg_size = 65536\<rparr> 0 = 0 \<and>
   nat \<lceil>real (nat \<lceil>real (2 ^ 64 - 1) / real 65536\<rceil>) / real 4\<rceil> * 65536 = (2 ^ 62 :: nat)"
proof -
  have 1: "cyclic True 2 (12 * 2) 4 1 2 =
     Some \<lparr>BlockSize = 2, mem_size = 24, n_inter_ranks = 4, n_intra_ranks = 1,
           n_blk = 0, seg_size = 2\<rparr>"
    by (simp add: cyclic_def ITYR_CHECK_def)
  have 2: "cyclic_get_segment True
     \<lparr>BlockSize = 2, mem_size = 24, n_inter_ranks = 4, n_intra_ranks = 1,
      n_blk = 0, seg_size = 2\<rparr> (5 * 2 + 2) =
     Some \<lparr>owner = 2, offset_b = 12, offset_e = 14, pm_offset = 2\<rparr>"
    by (simp add: cyclic_get_segment_def cyclic_effective_size_def cyclic_local_size_impl_def
        ITYR_CHECK_def sz_add_def sz_sub_def sz_mul_def sz_of_int_def int_of_sz_def Let_def)
  have 3: "cyclic True 65536 (2 ^ 64 - 1) 4 1 65536 =
     Some \<lparr>BlockSize = 65536, mem_size = 2 ^ 64 - 1, n_inter_ranks = 4, n_intra_ranks = 1,
           n_blk = 0, seg_size = 65536\<rparr>"
    by (simp add: cyclic_def ITYR_CHECK_def)
  have 4: "cyclic_local_size
     \<lparr>BlockSize = 65536, mem_size = 2 ^ 64 - 1, n_inter_ranks = 4, n_intra_ranks = 1,
      n_blk = 0, seg_size = 65536\<rparr> 0 = 0"
    by (simp add: cyclic_local_size_def cyclic_local_size_impl_def
        sz_add_def sz_sub_def sz_mul_def sz_of_int_def Let_def)
  have 5: "nat \<lceil>real (nat \<lceil>real (2 ^ 64 - 1) / real 65536\<rceil>) / real 4\<rceil> * 65536 = (2 ^ 62 :: nat)"
    by (simp add: ceil_div [symmetric])
  show ?thesis using 1 2 3 4 5 by blast
qed

text \<open>
  Claim C3, amended. For the block and the reverse-block policy on inputs within their
  bounds, and for the cyclic policy (with a segment size \<open>S \<ge> B\<close> that is a multiple of
  \<open>B \<ge> 1\<close>) on inputs within its own bounds: for every offset below the policy's
  effective size, \<open>get_segment\<close> returns a segment (its checks pass) with
  \<open>offset_b \<le> offset < offset_e\<close> and \<open>(offset_e - offset_b) mod B = 0\<close>.
\<close>

theorem get_segment_invariant_in_range:
  fixes B S sz R :: nat and Q :: int
  defines "m \<equiv> \<lparr>BlockSize = B, mem_size = sz, n_inter_ranks = int R, n_intra_ranks = Q,
                 n_blk = 0, seg_size = S\<rparr>"
  shows "(mapper_in_range B sz R \<longrightarrow>
            (\<forall>offset<block_effective_size (block B sz (int R) Q).
               \<exists>seg. block_get_segment chk (block B sz (int R) Q) offset = Some seg \<and>
                 offset_b seg \<le> offset \<and> offset < offset_e seg \<and>
                 (offset_e seg - offset_b seg) mod B = 0) \<and>
            (\<forall>offset<block_adws_effective_size (block_adws B sz (int R) Q).
               \<exists>seg. block_adws_get_segment chk (block_adws B sz (int R) Q) offset = Some seg \<and>
                 offset_b seg \<le> offset \<and> offset < offset_e seg \<and>
                 (offset_e seg - offset_b seg) mod B = 0)) \<and>
         (1 \<le> B \<and> B \<le> S \<and> S mod B = 0 \<and> cyclic_in_range S sz R \<longrightarrow>
            cyclic chk B sz (int R) Q S = Some m \<and>
            (\<forall>offset<cyclic_effective_size m.
               \<exists>seg. cyclic_get_segment chk m offset = Some seg \<and>
                 offset_b seg \<le> offset \<and> offset < offset_e seg \<and>
                 (offset_e seg - offset_b seg) mod B = 0))"
proof (intro conjI impI)
  assume r: "mapper_in_range B sz R"
  show "\<forall>offset<block_effective_size (block B sz (int R) Q).
            \<exists>seg. block_get_segment chk (block B sz (int R) Q) offset = Some seg \<and>
              offset_b seg \<le> offset \<and> offset < offset_e seg \<and>
              (offset_e seg - offset_b seg) mod B = 0"
    using block_segment_invariant [OF r] by blast
next
  assume r: "mapper_in_range B sz R"
  show "\<forall>offset<block_adws_effective_size (block_adws B sz (int R) Q).
            \<exists>seg. block_adws_get_segment chk (block_adws B sz (int R) Q) offset = Some seg \<and>
              offset_b seg \<le> offset \<and> offset < offset_e seg \<and>
              (offset_e seg - offset_b seg) mod B = 0"
    using block_adws_segment_invariant [OF r] by blast
next
  assume a: "1 \<le> B \<and> B \<le> S \<and> S mod B = 0 \<and> cyclic_in_range S sz R"
  show "cyclic chk B sz (int R) Q S = Some m"
    unfolding m_def using a by (simp add: cyclic_ctor)
next
  assume a: "1 \<le> B \<and> B \<le> S \<and> S mod B = 0 \<and> cyclic_in_range S sz R"
  then have s: "S mod B = 0" and c: "cyclic_in_range S sz R" by simp_all
  show "\<forall>offset<cyclic_effective_size m.
            \<exists>seg. cyclic_get_segment chk m offset = Some seg \<and>
              offset_b seg \<le> offset \<and> offset < offset_e seg \<and>
              (offset_e seg - offset_b seg) mod B = 0"
    unfolding m_def using cyclic_segment_invariant [OF s c] by blast
qed

lemma example_effective_sizes:
  "block_effective_size (block 65536 (14 * 65536) 4 1) = 14 * 65536"
  "block_adws_effective_size (block_adws 65536 (14 * 65536) 4 1) = 14 * 65536"
  "cyclic_effective_size \<lparr>BlockSize = 65536, mem_size = 14 * 65536, n_inter_ranks = 4,
      n_intra_ranks = 1, n_blk = 0, seg_size = 131072\<rparr> = 16 * 65536"
  by (simp_all add: block_effective_size_def block_adws_effective_size_def block_def
      block_adws_def cyclic_effective_size_def cyclic_local_size_impl_def Let_def
      sz_add_def sz_sub_def sz_mul_def sz_of_int_def)

theorem get_segment_invariant_in_range_witness:
  "mapper_in_range 65536 (14 * 65536) 4 \<and> cyclic_in_range 131072 (14 * 65536) 4 \<and>
   (\<exists>seg. block_get_segment True (block 65536 (14 * 65536) 4 1) 327687 = Some seg \<and>
      offset_b seg \<le> 327687 \<and> 327687 < offset_e seg \<and>
      (offset_e seg - offset_b seg) mod 65536 = 0) \<and>
   (\<exists>seg. cyclic_get_segment True \<lparr>BlockSize = 65536, mem_size = 14 * 65536, n_inter_ranks = 4,
      n_intra_ranks = 1, n_blk = 0, seg_size = 131072\<rparr> 327687 = Some seg \<and>
      offset_b seg \<le> 327687 \<and> 327687 < offset_e seg \<and>
      (offset_e seg - offset_b seg) mod 65536 = 0) \<and>
   (\<exists>seg. block_adws_get_segment True (block_adws 65536 (14 * 65536) 4 1) 327687 = Some seg \<and>
      offset_b seg \<le> 327687 \<and> 327687 < offset_e seg \<and>
      (offset_e seg - offset_b seg) mod 65536 = 0)"
proof -
  have r: "mapper_in_range 65536 (14 * 65536) 4" by (simp add: mapper_in_range_def)
  have c: "cyclic_in_range 131072 (14 * 65536) 4" by (simp add: cyclic_in_range_def)
  have s: "(65536::nat) \<le> 131072" "(131072::nat) mod 65536 = 0" by simp_all
  note t = get_segment_invariant_in_range [where chk = True and Q = 1 and B = 65536
      and S = 131072 and sz = "14 * 65536" and R = 4, unfolded of_nat_numeral]
  note tb = t [THEN conjunct1, rule_format, OF r]
  have h: "(1::nat) \<le> 65536 \<and> (65536::nat) \<le> 131072 \<and> (131072::nat) mod 65536 = 0 \<and>
      cyclic_in_range 131072 (14 * 65536) 4"
    using s c by simp
  note tc = t [THEN conjunct2, rule_format, OF h]
  have o: "(327687::nat) < 14 * 65536" "(327687::nat) < 16 * 65536" by simp_all
  note t1 = tb [THEN conjunct1, rule_format, of 327687, unfolded example_effective_sizes, OF o(1)]
  note t2 = tc [THEN conjunct2, rule_format, of 327687, unfolded example_effective_sizes, OF o(2)]
  note t3 = tb [THEN conjunct2, rule_format, of 327687, unfolded example_effective_sizes, OF o(1)]
  show ?thesis using r c t1 t2 t3 by (simp only: simp_thms)
qed

text \<open>
  Claim C3 as stated, for every size and rank count, fails for the block policy where
  the product of block index and rank count wraps: with \<open>B = 65536\<close>, \<open>size = 2 ^ 62\<close>,
  \<open>R = 2 ^ 20\<close> the offset \<open>2 ^ 61\<close> is below the effective size \<open>2 ^ 62\<close>, and an unchecked
  build returns the segment \<open>[0, 2 ^ 42)\<close>, which does not contain the offset (a checked
  build fails its range check and returns no segment).
\<close>

theorem get_segment_invariant_wraps:
  "(2::nat) ^ 61 < block_effective_size (block 65536 (2 ^ 62) 1048576 1) \<and>
   block_get_segment False (block 65536 (2 ^ 62) 1048576 1) (2 ^ 61) =
     Some \<lparr>owner = 0, offset_b = 0, offset_e = 2 ^ 42, pm_offset = 0\<rparr> \<and>
   \<not> (2::nat) ^ 61 < offset_e \<lparr>owner = 0, offset_b = 0, offset_e = 2 ^ 42, pm_offset = 0\<rparr> \<and>
   block_get_segment True (block 65536 (2 ^ 62) 1048576 1) (2 ^ 61) = None"
  using block_wrapped_segment by simp

text \<open>
  Claim C4, amended. On representable inputs, under the block and the reverse-block
  policy the ranges that \<open>get_seg_range\<close> produces for \<open>seg_id = 0 .. R - 1\<close>, scaled to
  bytes, are pairwise disjoint and their union is exactly \<open>[0, effective_size())\<close>; every
  offset below the effective size lies in the range of exactly one segment id.
\<close>

theorem seg_ranges_partition_in_range:
  fixes B sz R :: nat and Q :: int
  assumes r: "mapper_in_range B sz R"
  defines "rng \<equiv> \<lambda>k. block_get_seg_range (block B sz (int R) Q) (int k)"
  defines "rng' \<equiv> \<lambda>k. block_adws_get_seg_range (block_adws B sz (int R) Q) (int k)"
  shows "((\<Union>k<R. case rng k of (b, e) \<Rightarrow> {b * B ..< e * B}) =
            {0 ..< block_effective_size (block B sz (int R) Q)} \<and>
          (\<forall>j<R. \<forall>k<R. j \<noteq> k \<longrightarrow>
             (case rng j of (b, e) \<Rightarrow> {b * B ..< e * B}) \<inter>
             (case rng k of (b, e) \<Rightarrow> {b * B ..< e * B}) = {}) \<and>
          (\<forall>offset<block_effective_size (block B sz (int R) Q).
             \<exists>!k. k < R \<and> (case rng k of (b, e) \<Rightarrow> b * B \<le> offset \<and> offset < e * B))) \<and>
         ((\<Union>k<R. case rng' k of (b, e) \<Rightarrow> {b * B ..< e * B}) =
            {0 ..< block_adws_effective_size (block_adws B sz (int R) Q)} \<and>
          (\<forall>j<R. \<forall>k<R. j \<noteq> k \<longrightarrow>
             (case rng' j of (b, e) \<Rightarrow> {b * B ..< e * B}) \<inter>
             (case rng' k of (b, e) \<Rightarrow> {b * B ..< e * B}) = {}) \<and>
          (\<forall>offset<block_adws_effective_size (block_adws B sz (int R) Q).
             \<exists>!k. k < R \<and> (case rng' k of (b, e) \<Rightarrow> b * B \<le> offset \<and> offset < e * B)))"
proof -
  note f = in_range_facts [OF r]
  define N where "N = (sz + B - 1) div B"
  have R0: "0 < R" using f(3) by simp
  have e1: "block_effective_size (block B sz (int R) Q) = N * B"
    unfolding block_effective_size_def block_n_blk [OF r] N_def
    using f(6) by (simp add: block_def sz_mul_id)
  have e2: "block_adws_effective_size (block_adws B sz (int R) Q) = N * B"
    unfolding block_adws_effective_size_def block_adws_n_blk [OF r] N_def
    using f(6) by (simp add: block_adws_def sz_mul_id)
  define c where "c k = (k * N + R - 1) div R" for k
  define c' where "c' k = k * N div R" for k
  have 1: "\<forall>k<R. rng k = (c k, c (k + 1))"
    unfolding rng_def c_def N_def using block_seg_range [OF r] by blast
  have 2: "\<forall>k<R. rng' k = (c' k, c' (k + 1))"
    unfolding rng'_def c'_def N_def using block_adws_seg_range [OF r] by blast
  have m: "\<forall>k<R. c k \<le> c (k + 1)" unfolding c_def using ceil_part_mono by blast
  have m': "\<forall>k<R. c' k \<le> c' (k + 1)" unfolding c'_def using floor_part_mono by blast
  have z: "c 0 = 0" unfolding c_def using R0 by simp
  have z': "c' 0 = 0" unfolding c'_def by simp
  have "(N * R + R - 1) div R = N" using R0 by (rule blocks_of_multiple)
  then have t: "c R = N" unfolding c_def by (simp only: mult.commute)
  have t': "c' R = N" unfolding c'_def using R0 by simp
  show ?thesis unfolding e1 e2
    using partition_of_boundaries [OF 1 m z t, of B] partition_of_boundaries [OF 2 m' z' t', of B]
    by blast
qed

lemma example_seg_ranges:
  "block_get_seg_range (block 65536 (14 * 65536) 4 1) 0 = (0, 4)"
  "block_get_seg_range (block 65536 (14 * 65536) 4 1) 1 = (4, 7)"
  "block_adws_get_seg_range (block_adws 65536 (14 * 65536) 4 1) 0 = (0, 3)"
  "block_adws_get_seg_range (block_adws 65536 (14 * 65536) 4 1) 1 = (3, 7)"
  by (simp_all add: block_get_seg_range_def block_adws_get_seg_range_def block_def
      block_adws_def Let_def sz_add_def sz_sub_def sz_mul_def sz_of_int_def)

theorem seg_ranges_partition_in_range_witness:
  "mapper_in_range 65536 (14 * 65536) 4 \<and>
   (\<Union>k<4. case block_get_seg_range (block 65536 (14 * 65536) 4 1) (int k) of
              (b, e) \<Rightarrow> {b * 65536 ..< e * 65536}) = {0 ..< 14 * 65536} \<and>
   {0 * 65536 ..< 4 * 65536} \<inter> {4 * 65536 ..< 7 * 65536} = ({} :: nat set) \<and>
   (\<exists>!k. k < 4 \<and> (case block_get_seg_range (block 65536 (14 * 65536) 4 1) (int k) of
              (b, e) \<Rightarrow> b * 65536 \<le> 327687 \<and> 327687 < e * 65536)) \<and>
   (\<Union>k<4. case block_adws_get_seg_range (block_adws 65536 (14 * 65536) 4 1) (int k) of
              (b, e) \<Rightarrow> {b * 65536 ..< e * 65536}) = {0 ..< 14 * 65536} \<and>
   {0 * 65536 ..< 3 * 65536} \<inter> {3 * 65536 ..< 7 * 65536} = ({} :: nat set) \<and>
   (\<exists>!k. k < 4 \<and> (case block_adws_get_seg_range (block_adws 65536 (14 * 65536) 4 1) (int k) of
              (b, e) \<Rightarrow> b * 65536 \<le> 327687 \<and> 327687 < e * 65536))"
proof -
  have r: "mapper_in_range 65536 (14 * 65536) 4" by (simp add: mapper_in_range_def)
  note t = seg_ranges_partition_in_range [OF r, where Q = 1, unfolded of_nat_numeral
      example_effective_sizes]
  have o: "(327687::nat) < 14 * 65536" by simp
  have n: "(0::nat) < 4" "(1::nat) < 4" "(0::nat) \<noteq> 1" by simp_all
  note b = t [THEN conjunct1]
  note a = t [THEN conjunct2]
  have b2: "{0 * 65536 ..< 4 * 65536} \<inter> {4 * 65536 ..< 7 * 65536} = ({} :: nat set)"
    using b [THEN conjunct2, THEN conjunct1, rule_format, OF n]
    unfolding of_nat_0 of_nat_1 example_seg_ranges prod.case .
  have a2: "{0 * 65536 ..< 3 * 65536} \<inter> {3 * 65536 ..< 7 * 65536} = ({} :: nat set)"
    using a [THEN conjunct2, THEN conjunct1, rule_format, OF n]
    unfolding of_nat_0 of_nat_1 example_seg_ranges prod.case .
  show ?thesis
    using r b [THEN conjunct1] b2 b [THEN conjunct2, THEN conjunct2, rule_format, OF o]
      a [THEN conjunct1] a2 a [THEN conjunct2, THEN conjunct2, rule_format, OF o]
    by (simp only: simp_thms)
qed

text \<open>
  Claim C4 as stated, for every size and rank count, fails where \<open>seg_id * n_blk\<close> wraps:
  with \<open>B = 65536\<close>, \<open>size = 2 ^ 62\<close>, \<open>R = 2 ^ 20\<close> the block policy gives the segment ids
  0 and \<open>2 ^ 18\<close> the same non-empty range \<open>[0, 2 ^ 26)\<close> of blocks.
\<close>

theorem seg_ranges_overlap_wrapped:
  "block_get_seg_range (block 65536 (2 ^ 62) 1048576 1) 0 = (0, 2 ^ 26) \<and>
   block_get_seg_range (block 65536 (2 ^ 62) 1048576 1) 262144 = (0, 2 ^ 26) \<and>
   (262144 :: int) < 1048576 \<and>
   {0 * 65536 ..< 2 ^ 26 * 65536} \<inter> {0 * 65536 ..< 2 ^ 26 * 65536} \<noteq> ({} :: nat set)"
proof -
  have 1: "block_get_seg_range (block 65536 (2 ^ 62) 1048576 1) 0 = (0, 2 ^ 26)"
    by (simp add: block_get_seg_range_def block_def Let_def
        sz_add_def sz_sub_def sz_mul_def sz_of_int_def)
  have 2: "block_get_seg_range (block 65536 (2 ^ 62) 1048576 1) 262144 = (0, 2 ^ 26)"
    by (simp add: block_get_seg_range_def block_def Let_def
        sz_add_def sz_sub_def sz_mul_def sz_of_int_def)
  have "(0::nat) \<in> {0 * 65536 ..< 2 ^ 26 * 65536}" by simp
  then have 3: "{0 * 65536 ..< 2 ^ 26 * 65536} \<inter> {0 * 65536 ..< 2 ^ 26 * 65536} \<noteq> ({} :: nat set)"
    by blast
  show ?thesis using 1 2 3 by simp
qed

text \<open>
  Claim C5, amended. On representable inputs the reverse-block policy is the block policy
  mirrored in the block index, not reflected in the owner alone: with \<open>N = \<lceil>size/B\<rceil>\<close>,
  an offset in block \<open>b\<close> gets the owner that the block policy gives to block
  \<open>N - 1 - b\<close>, and its segment is the mirror image of that block-policy segment; when
  \<open>R\<close> divides \<open>N\<close> this is the owner \<open>R - r - 1\<close> where the block policy assigns \<open>r\<close> to the
  same offset; and each rank's local share has the size of the same rank's share under
  the block policy.
\<close>

theorem reverse_block_is_mirrored_block:
  fixes B sz R :: nat and Q :: int
  assumes r: "mapper_in_range B sz R"
  defines "N \<equiv> nat \<lceil>real sz / real B\<rceil>"
  shows "(\<forall>offset<N * B. \<exists>sa sb.
            block_adws_get_segment chk (block_adws B sz (int R) Q) offset = Some sa \<and>
            block_get_segment chk (block B sz (int R) Q) ((N - 1 - offset div B) * B) = Some sb \<and>
            owner sa = owner sb \<and>
            offset_b sa = N * B - offset_e sb \<and> offset_e sa = N * B - offset_b sb) \<and>
         (R dvd N \<longrightarrow>
            (\<forall>offset<N * B. \<exists>sa sb.
               block_adws_get_segment chk (block_adws B sz (int R) Q) offset = Some sa \<and>
               block_get_segment chk (block B sz (int R) Q) offset = Some sb \<and>
               owner sa = int R - owner sb - 1)) \<and>
         (\<forall>k<R. block_adws_local_size (block_adws B sz (int R) Q) (int k) =
                  block_local_size (block B sz (int R) Q) (int k))"
proof -
  have B0: "0 < B" using in_range_facts(1) [OF r] by simp
  have N: "N = (sz + B - 1) div B" unfolding N_def using B0 by (rule ceil_div [symmetric])
  have 1: "\<forall>offset<N * B. \<exists>sa sb.
            block_adws_get_segment chk (block_adws B sz (int R) Q) offset = Some sa \<and>
            block_get_segment chk (block B sz (int R) Q) ((N - 1 - offset div B) * B) = Some sb \<and>
            owner sa = owner sb \<and>
            offset_b sa = N * B - offset_e sb \<and> offset_e sa = N * B - offset_b sb"
    unfolding N using reverse_block_mirror_at [OF r] by blast
  have 2: "\<forall>offset<N * B. \<exists>sa sb.
               block_adws_get_segment chk (block_adws B sz (int R) Q) offset = Some sa \<and>
               block_get_segment chk (block B sz (int R) Q) offset = Some sb \<and>
               owner sa = int R - owner sb - 1" if "R dvd N"
    using that unfolding N using reverse_block_reflects_at [OF r] by blast
  have 3: "\<forall>k<R. block_adws_local_size (block_adws B sz (int R) Q) (int k) =
                  block_local_size (block B sz (int R) Q) (int k)"
    using reverse_block_local_size [OF r] by blast
  show ?thesis using 1 2 3 by blast
qed

theorem reverse_block_is_mirrored_block_witness:
  "mapper_in_range 65536 (12 * 65536) 4 \<and>
   (\<exists>sa sb.
      block_adws_get_segment True (block_adws 65536 (12 * 65536) 4 1) (3 * 65536) = Some sa \<and>
      block_get_segment True (block 65536 (12 * 65536) 4 1) ((12 - 1 - 3) * 65536) = Some sb \<and>
      owner sa = owner sb \<and>
      offset_b sa = 12 * 65536 - offset_e sb \<and> offset_e sa = 12 * 65536 - offset_b sb) \<and>
   (\<exists>sa sb.
      block_adws_get_segment True (block_adws 65536 (12 * 65536) 4 1) (3 * 65536) = Some sa \<and>
      block_get_segment True (block 65536 (12 * 65536) 4 1) (3 * 65536) = Some sb \<and>
      owner sa = 4 - owner sb - 1) \<and>
   block_adws_local_size (block_adws 65536 (12 * 65536) 4 1) 2 =
     block_local_size (block 65536 (12 * 65536) 4 1) 2"
proof -
  have r: "mapper_in_range 65536 (12 * 65536) 4" by (simp add: mapper_in_range_def)
  have n: "nat \<lceil>real (12 * 65536) / real 65536\<rceil> = 12" by simp
  note t = reverse_block_is_mirrored_block [OF r, where chk = True and Q = 1,
      unfolded n, unfolded of_nat_numeral]
  have o: "(3 * 65536 :: nat) < 12 * 65536" by simp
  have d: "(3 * 65536 :: nat) div 65536 = 3" by simp
  have dv: "(4::nat) dvd 12" by simp
  have k: "(2::nat) < 4" by simp
  note t1 = t [THEN conjunct1, rule_format, OF o, unfolded d]
  note t2 = t [THEN conjunct2, THEN conjunct1, rule_format, OF dv o]
  note t3 = t [THEN conjunct2, THEN conjunct2, rule_format, OF k, unfolded of_nat_numeral]
  show ?thesis using r t1 t2 t3 by (simp only: simp_thms)
qed

text \<open>
  Claim C5 as stated fails whenever \<open>R\<close> does not divide the block count: with
  \<open>B = 65536\<close>, \<open>size = 14 * B\<close>, 4 ranks and the offset \<open>3 * B\<close> the block policy assigns
  owner 0, so the reflection is owner 3, and the reverse-block policy assigns owner 2;
  rank 0 has a local share of \<open>4 * B\<close> under the reverse-block policy, and the reflected
  rank 3 has \<open>3 * B\<close> under the block policy.
\<close>

theorem reverse_block_not_owner_reflection:
  "block_get_segment True (block 65536 (14 * 65536) 4 1) (3 * 65536) =
     Some \<lparr>owner = 0, offset_b = 0, offset_e = 4 * 65536, pm_offset = 0\<rparr> \<and>
   block_adws_get_segment True (block_adws 65536 (14 * 65536) 4 1) (3 * 65536) =
     Some \<lparr>owner = 2, offset_b = 3 * 65536, offset_e = 7 * 65536, pm_offset = 0\<rparr> \<and>
   (2::int) \<noteq> 4 - 0 - 1 \<and>
   block_adws_local_size (block_adws 65536 (14 * 65536) 4 1) 0 = 4 * 65536 \<and>
   block_local_size (block 65536 (14 * 65536) 4 1) (4 - 0 - 1) = 3 * 65536"
proof -
  have r: "mapper_in_range 65536 (14 * 65536) 4" by (simp add: mapper_in_range_def)
  have 1: "block_get_segment True (block 65536 (14 * 65536) 4 1) (3 * 65536) =
     Some \<lparr>owner = 0, offset_b = 0, offset_e = 4 * 65536, pm_offset = 0\<rparr>"
    using block_get_segment_value [OF r, of "3 * 65536" True 1] by simp
  have 2: "block_adws_get_segment True (block_adws 65536 (14 * 65536) 4 1) (3 * 65536) =
     Some \<lparr>owner = 2, offset_b = 3 * 65536, offset_e = 7 * 65536, pm_offset = 0\<rparr>"
    using block_adws_get_segment_value(1) [OF r, of "3 * 65536" True 1] by simp
  have 3: "block_adws_local_size (block_adws 65536 (14 * 65536) 4 1) 0 = 4 * 65536"
    using block_adws_local_size_value [OF r, of 0 1] by simp
  have 4: "block_local_size (block 65536 (14 * 65536) 4 1) (4 - 0 - 1) = 3 * 65536"
    using block_local_size_value [OF r, of 3 1] by simp
  show ?thesis using 1 2 3 4 by simp
qed

section \<open>Claims about the checkout span\<close>

lemma checked_out_append: "checked_out (a @ b) = checked_out a + checked_out b"
  by (induction a rule: checked_out.induct) simp_all

lemma checked_in_append: "checked_in (a @ b) = checked_in a + checked_in b"
  by (induction a rule: checked_in.induct) simp_all

lemma held_append: "held (a @ b) = held a + held b"
  by (induction a rule: held.induct) simp_all

lemma held_rev: "held (rev os) = held os"
  by (induction os rule: held.induct) (simp_all add: held_append)

lemma held_update: "i < length os \<Longrightarrow> held (os[i := x]) + held [os ! i] = held os + held [x]"
proof (induction os arbitrary: i)
  case Nil then show ?case by simp
next
  case (Cons a os)
  show ?case
  proof (cases i)
    case 0
    have "held (x # os) = held [x] + held os" using held_append [of "[x]" os] by simp
    moreover have "held (a # os) = held [a] + held os" using held_append [of "[a]" os] by simp
    ultimately show ?thesis using 0 by simp
  next
    case (Suc j)
    then have j: "j < length os" using Cons.prems by simp
    have 1: "held (a # os[j := x]) = held [a] + held (os[j := x])"
      using held_append [of "[a]" "os[j := x]"] by simp
    have 2: "held (a # os) = held [a] + held os" using held_append [of "[a]" os] by simp
    show ?thesis using Suc Cons.IH [OF j] 1 2 by (simp add: add.assoc)
  qed
qed

lemma destroy_all_checked_out: "checked_out (destroy_all os tr) = checked_out tr"
  by (induction os tr rule: destroy_all.induct)
    (simp_all add: checkout_span_dtor_def destroy_def checked_out_append)

lemma destroy_all_checked_in: "checked_in (destroy_all os tr) = checked_in tr + held os"
  by (induction os tr rule: destroy_all.induct)
    (simp_all add: checkout_span_dtor_def destroy_def checked_in_append)

lemma live_SomeD: "live w i = Some cs \<Longrightarrow> i < length (objs w) \<and> objs w ! i = Some cs"
  by (simp add: live_def split: if_splits)

lemma span_step_balanced:
  assumes "balanced w" "span_step chk x w = Some w'"
  shows "balanced w'"
proof (cases x)
  case (New g n)
  then show ?thesis using assms
    by (auto simp: balanced_def checkout_span_ctor_def ITYR_CHECK_def ori_checkout_def
        checked_out_append checked_in_append held_append split: if_splits option.splits)
next
  case NewDefault
  then show ?thesis using assms
    by (auto simp: balanced_def checkout_span_default_def held_append)
next
  case (MoveNew i)
  then obtain cs where l: "live w i = Some cs"
    and w': "w' = \<lparr>objs = (objs w)[i := Some (cs\<lparr>cs_ptr := 0, cs_n := 0\<rparr>)] @ [Some \<lparr>cs_ptr = cs_ptr cs, cs_n = cs_n cs\<rparr>],
                   trace = trace w\<rparr>"
    using assms(2) by (auto simp: checkout_span_move_def split: option.splits)
  note i = live_SomeD [OF l]
  have "held ((objs w)[i := Some (cs\<lparr>cs_ptr := 0, cs_n := 0\<rparr>)]) + held [Some cs] = held (objs w)"
    using held_update [of i "objs w" "Some (cs\<lparr>cs_ptr := 0, cs_n := 0\<rparr>)"] i by simp
  then show ?thesis using assms(1) unfolding balanced_def w' by (auto simp: held_append)
next
  case (MoveAssign d s)
  then obtain dst src src' where ld: "live w d = Some dst" and ls: "live w s = Some src"
    and os: "((objs w)[d := Some (dst\<lparr>cs_ptr := cs_ptr src, cs_n := cs_n src\<rparr>)]) ! s = Some src'"
    and w': "w' = \<lparr>objs = ((objs w)[d := Some (dst\<lparr>cs_ptr := cs_ptr src, cs_n := cs_n src\<rparr>)])
                            [s := Some (src'\<lparr>cs_ptr := 0, cs_n := 0\<rparr>)],
                   trace = destroy dst (trace w)\<rparr>"
    using assms(2) by (auto simp: Let_def split: option.splits)
  note d = live_SomeD [OF ld] and s = live_SomeD [OF ls]
  define o1 where "o1 = (objs w)[d := Some (dst\<lparr>cs_ptr := cs_ptr src, cs_n := cs_n src\<rparr>)]"
  have h1: "held o1 + held [Some dst] = held (objs w) + held [Some src]"
    unfolding o1_def using held_update [of d "objs w" "Some (dst\<lparr>cs_ptr := cs_ptr src, cs_n := cs_n src\<rparr>)"] d
    by simp
  have s1: "s < length o1" unfolding o1_def using s by simp
  have p: "cs_ptr src' = cs_ptr src \<and> cs_n src' = cs_n src"
    using os s d by (cases "s = d") (auto simp: nth_list_update)
  have e: "held [Some src'] = held [Some src]" using p by simp
  have z: "held [Some (src'\<lparr>cs_ptr := 0, cs_n := 0\<rparr>)] = {#}" by simp
  have os': "o1 ! s = Some src'" using os unfolding o1_def .
  have h2: "held (o1[s := Some (src'\<lparr>cs_ptr := 0, cs_n := 0\<rparr>)]) + held [Some src] = held o1"
    using held_update [OF s1, of "Some (src'\<lparr>cs_ptr := 0, cs_n := 0\<rparr>)"]
    unfolding os' e z by simp
  have "held (o1[s := Some (src'\<lparr>cs_ptr := 0, cs_n := 0\<rparr>)]) + held [Some dst] = held (objs w)"
    using h1 unfolding h2 [symmetric] by (simp split: if_splits)
  then show ?thesis using assms(1) unfolding balanced_def w' o1_def [symmetric]
    by (auto simp: destroy_def checked_out_append checked_in_append)
next
  case (CheckinOp i)
  then obtain cs where l: "live w i = Some cs"
    and w': "w' = \<lparr>objs = (objs w)[i := Some (fst (checkin cs (trace w)))],
                   trace = snd (checkin cs (trace w))\<rparr>"
    using assms(2) by (auto split: option.splits prod.splits)
  note i = live_SomeD [OF l]
  show ?thesis using assms(1) held_update [of i "objs w" "Some (cs\<lparr>cs_ptr := 0, cs_n := 0\<rparr>)"]
      held_update [of i "objs w" "Some cs"] i
    unfolding balanced_def w'
    by (auto simp: checkin_def checked_out_append checked_in_append)
next
  case (CheckoutOp i g n)
  then obtain cs where l: "live w i = Some cs"
    and w': "w' = \<lparr>objs = (objs w)[i := Some (fst (checkout_member cs g n (trace w)))],
                   trace = snd (checkout_member cs g n (trace w))\<rparr>"
    using assms(2) by (auto split: option.splits prod.splits)
  note i = live_SomeD [OF l]
  show ?thesis using assms(1) held_update [of i "objs w" "Some (cs\<lparr>cs_ptr := g, cs_n := n\<rparr>)"] i
    unfolding balanced_def w'
    by (auto simp: checkout_member_def checkin_def ori_checkout_def
        checked_out_append checked_in_append)
next
  case (Delete i)
  then obtain cs where l: "live w i = Some cs"
    and w': "w' = \<lparr>objs = (objs w)[i := None], trace = checkout_span_dtor cs (trace w)\<rparr>"
    using assms(2) by (auto split: option.splits)
  note i = live_SomeD [OF l]
  show ?thesis using assms(1) held_update [of i "objs w" None] i
    unfolding balanced_def w'
    by (auto simp: checkout_span_dtor_def destroy_def checked_out_append checked_in_append)
qed

lemma span_run_balanced:
  "balanced w \<Longrightarrow> span_run chk ops w = Some w' \<Longrightarrow> balanced w'"
proof (induction ops arbitrary: w)
  case Nil then show ?case by simp
next
  case (Cons x xs)
  then obtain w1 where s: "span_step chk x w = Some w1" and r: "span_run chk xs w1 = Some w'"
    by (auto split: option.splits)
  have "balanced w1" using Cons.prems(1) s by (rule span_step_balanced)
  then show ?case using r by (rule Cons.IH)
qed

lemma leave_scope_balanced:
  assumes "balanced w"
  shows "checked_in (leave_scope w) = checked_out (leave_scope w)"
  using assms unfolding balanced_def leave_scope_def
  by (simp add: destroy_all_checked_in destroy_all_checked_out held_rev)

text \<open>
  Claim C8. The destructor calls \<^verbatim>\<open>ori::checkin\<close> exactly when the span holds a pointer;
  move construction hands the holding to the new span and leaves the source inert, so that
  destroying the source calls nothing; move assignment first checks in what the
  destination held and then takes over the source's holding, leaving the source inert;
  and in every program over span objects (which has no copy operation), at every point
  the regions checked in are among those checked out, and after leaving the scope at any
  point every checked-out region has been checked in exactly once.
\<close>

theorem checkout_span_checkin_exactly_once:
  "checkout_span_dtor cs tr =
     (if cs_ptr cs \<noteq> 0 then tr @ [Checkin (cs_ptr cs) (cs_n cs)] else tr) \<and>
   (case checkout_span_move cs of
      (new, old) \<Rightarrow> cs_ptr new = cs_ptr cs \<and> cs_n new = cs_n cs \<and>
        cs_ptr old = 0 \<and> checkout_span_dtor old tr = tr) \<and>
   (case checkout_span_move_assign dst src tr of
      (dst', src', tr') \<Rightarrow>
        tr' = (if cs_ptr dst \<noteq> 0 then tr @ [Checkin (cs_ptr dst) (cs_n dst)] else tr) \<and>
        cs_ptr dst' = cs_ptr src \<and> cs_n dst' = cs_n src \<and>
        cs_ptr src' = 0 \<and> checkout_span_dtor src' tr' = tr') \<and>
   (\<forall>ops w. span_run chk ops \<lparr>objs = [], trace = []\<rparr> = Some w \<longrightarrow>
      checked_in (trace w) \<subseteq># checked_out (trace w) \<and>
      checked_in (leave_scope w) = checked_out (leave_scope w))"
proof -
  have 1: "checkout_span_dtor cs tr =
     (if cs_ptr cs \<noteq> 0 then tr @ [Checkin (cs_ptr cs) (cs_n cs)] else tr)"
    by (simp add: checkout_span_dtor_def destroy_def)
  have 2: "case checkout_span_move cs of
      (new, old) \<Rightarrow> cs_ptr new = cs_ptr cs \<and> cs_n new = cs_n cs \<and>
        cs_ptr old = 0 \<and> checkout_span_dtor old tr = tr"
    by (simp add: checkout_span_move_def checkout_span_dtor_def destroy_def)
  have 3: "case checkout_span_move_assign dst src tr of
      (dst', src', tr') \<Rightarrow>
        tr' = (if cs_ptr dst \<noteq> 0 then tr @ [Checkin (cs_ptr dst) (cs_n dst)] else tr) \<and>
        cs_ptr dst' = cs_ptr src \<and> cs_n dst' = cs_n src \<and>
        cs_ptr src' = 0 \<and> checkout_span_dtor src' tr' = tr'"
    by (simp add: checkout_span_move_assign_def checkout_span_dtor_def destroy_def Let_def)
  have 4: "checked_in (trace w) \<subseteq># checked_out (trace w) \<and>
      checked_in (leave_scope w) = checked_out (leave_scope w)"
    if "span_run chk ops \<lparr>objs = [], trace = []\<rparr> = Some w" for ops w
  proof -
    have "balanced \<lparr>objs = [], trace = []\<rparr>" by (simp add: balanced_def)
    then have b: "balanced w" using that by (rule span_run_balanced)
    then have "checked_in (trace w) \<subseteq># checked_out (trace w)" by (simp add: balanced_def)
    then show ?thesis using leave_scope_balanced [OF b] by simp
  qed
  show ?thesis using 1 2 3 4 by blast
qed

lemma example_span_program:
  "span_run True [New 4096 8, NewDefault, MoveAssign 1 0, MoveNew 1, New 8192 4]
      \<lparr>objs = [], trace = []\<rparr> =
   Some \<lparr>objs = [Some \<lparr>cs_ptr = 0, cs_n = 0\<rparr>, Some \<lparr>cs_ptr = 0, cs_n = 0\<rparr>,
                 Some \<lparr>cs_ptr = 4096, cs_n = 8\<rparr>, Some \<lparr>cs_ptr = 8192, cs_n = 4\<rparr>],
         trace = [Checkout 4096 8, Checkout 8192 4]\<rparr>"
  by (simp add: checkout_span_ctor_def ITYR_CHECK_def ori_checkout_def live_def
      checkout_span_default_def checkout_span_move_def checkout_span_dtor_def destroy_def
      Let_def)

theorem checkout_span_checkin_exactly_once_witness:
  "span_run True [New 4096 8, NewDefault, MoveAssign 1 0, MoveNew 1, New 8192 4]
      \<lparr>objs = [], trace = []\<rparr> =
   Some \<lparr>objs = [Some \<lparr>cs_ptr = 0, cs_n = 0\<rparr>, Some \<lparr>cs_ptr = 0, cs_n = 0\<rparr>,
                 Some \<lparr>cs_ptr = 4096, cs_n = 8\<rparr>, Some \<lparr>cs_ptr = 8192, cs_n = 4\<rparr>],
         trace = [Checkout 4096 8, Checkout 8192 4]\<rparr> \<and>
   leave_scope \<lparr>objs = [Some \<lparr>cs_ptr = 0, cs_n = 0\<rparr>, Some \<lparr>cs_ptr = 0, cs_n = 0\<rparr>,
                 Some \<lparr>cs_ptr = 4096, cs_n = 8\<rparr>, Some \<lparr>cs_ptr = 8192, cs_n = 4\<rparr>],
         trace = [Checkout 4096 8, Checkout 8192 4]\<rparr> =
     [Checkout 4096 8, Checkout 8192 4, Checkin 8192 4, Checkin 4096 8] \<and>
   checked_in [Checkout 4096 8, Checkout 8192 4, Checkin 8192 4, Checkin 4096 8] =
     checked_out [Checkout 4096 8, Checkout 8192 4, Checkin 8192 4, Checkin 4096 8]"
proof -
  have l: "leave_scope \<lparr>objs = [Some \<lparr>cs_ptr = 0, cs_n = 0\<rparr>, Some \<lparr>cs_ptr = 0, cs_n = 0\<rparr>,
                 Some \<lparr>cs_ptr = 4096, cs_n = 8\<rparr>, Some \<lparr>cs_ptr = 8192, cs_n = 4\<rparr>],
         trace = [Checkout 4096 8, Checkout 8192 4]\<rparr> =
     [Checkout 4096 8, Checkout 8192 4, Checkin 8192 4, Checkin 4096 8]"
    by (simp add: leave_scope_def checkout_span_dtor_def destroy_def)
  note t = checkout_span_checkin_exactly_once [where chk = True, THEN conjunct2, THEN conjunct2,
      THEN conjunct2, rule_format, OF example_span_program, THEN conjunct2, unfolded l]
  show ?thesis using example_span_program l t by (simp only: simp_thms)
qed

text \<open>
  Claim C10, amended. Constructing a span with \<open>n = 0\<close> performs no \<^verbatim>\<open>ori::checkout\<close> and
  yields a span with \<open>data() = nullptr\<close> in every build. Constructing one with a null
  global pointer and \<open>n > 0\<close> performs no \<^verbatim>\<open>ori::checkout\<close> either, but only an unchecked
  build yields a span (with \<open>data() = nullptr\<close>): in a checked build the constructor's
  assertion fails. Whenever the constructor returns a span for \<open>n = 0\<close> or a null pointer,
  the trace is unchanged, \<open>data()\<close> is null, and neither the destructor nor \<open>checkin()\<close>
  calls \<^verbatim>\<open>ori::checkin\<close>.
\<close>

theorem zero_length_checkout_is_noop:
  "checkout_span_ctor chk gptr 0 tr = Some (\<lparr>cs_ptr = 0, cs_n = 0\<rparr>, tr) \<and>
   (0 < n \<longrightarrow>
      checkout_span_ctor False 0 n tr = Some (\<lparr>cs_ptr = 0, cs_n = n\<rparr>, tr) \<and>
      checkout_span_ctor True 0 n tr = None) \<and>
   (\<forall>cs tr'. (n = 0 \<or> gptr = 0) \<and> checkout_span_ctor chk gptr n tr = Some (cs, tr') \<longrightarrow>
      tr' = tr \<and> data cs = 0 \<and> checkout_span_dtor cs tr' = tr' \<and> checkin cs tr' = (cs, tr'))"
  by (auto simp: checkout_span_ctor_def ITYR_CHECK_def data_def checkout_span_dtor_def
      destroy_def checkin_def split: if_splits)

theorem zero_length_checkout_is_noop_witness:
  "checkout_span_ctor True 4096 0 [Checkout 1 1] = Some (\<lparr>cs_ptr = 0, cs_n = 0\<rparr>, [Checkout 1 1]) \<and>
   checkout_span_ctor False 0 3 [] = Some (\<lparr>cs_ptr = 0, cs_n = 3\<rparr>, []) \<and>
   checkout_span_ctor True 0 3 [] = None \<and>
   data \<lparr>cs_ptr = 0, cs_n = 3\<rparr> = 0 \<and>
   checkout_span_dtor \<lparr>cs_ptr = 0, cs_n = 3\<rparr> [] = [] \<and>
   checkin \<lparr>cs_ptr = 0, cs_n = 3\<rparr> [] = (\<lparr>cs_ptr = 0, cs_n = 3\<rparr>, [])"
proof -
  note a = zero_length_checkout_is_noop [of True 4096 "[Checkout 1 1]" 3, THEN conjunct1]
  have n: "(0::nat) < 3" by simp
  note b = zero_length_checkout_is_noop [of False 0 "[]" 3, THEN conjunct2, THEN conjunct1,
      rule_format, OF n]
  have h: "((3::nat) = 0 \<or> (0::nat) = 0) \<and>
      checkout_span_ctor False 0 3 [] = Some (\<lparr>cs_ptr = 0, cs_n = 3\<rparr>, [])"
    using b by simp
  note c = zero_length_checkout_is_noop [of False 0 "[]" 3, THEN conjunct2, THEN conjunct2,
      rule_format, OF h]
  show ?thesis using a b c by (simp only: simp_thms)
qed

text \<open>
  Claim C10 as stated fails for a null global pointer with a positive count in a checked
  build: no \<^verbatim>\<open>ori::checkout\<close> is performed, but the constructor's assertion
  \<^verbatim>\<open>(ptr_ && n_ > 0) || (!ptr_ && n == 0)\<close> fails and no span is yielded.
\<close>

theorem null_pointer_checkout_rejected:
  "checkout_span_ctor True 0 1 [] = None"
  by (simp add: checkout_span_ctor_def ITYR_CHECK_def)

section \<open>Claims about the reservation of virtual memory\<close>

lemma fold_max_ge: "(a::int) \<le> fold max fs a \<and> (\<forall>f \<in> set fs. f \<le> fold max fs a)"
proof (induction fs arbitrary: a)
  case Nil then show ?case by simp
next
  case (Cons f fs)
  have "max f a \<le> fold max fs (max f a)" "\<forall>g \<in> set fs. g \<le> fold max fs (max f a)"
    using Cons [of "max f a"] by simp_all
  then show ?case by auto
qed

lemma fold_max_in: "fold max fs (a::int) = a \<or> fold max fs a \<in> set fs"
proof (induction fs arbitrary: a)
  case Nil then show ?case by simp
next
  case (Cons f fs)
  have "fold max fs (max f a) = max f a \<or> fold max fs (max f a) \<in> set fs"
    using Cons [of "max f a"] .
  moreover have "max f a = a \<or> max f a = f" by (simp add: max_def)
  ultimately show ?case by auto
qed

lemma failed_rank_max_ge: "f \<in> set fs \<Longrightarrow> f \<le> failed_rank_max fs"
  unfolding failed_rank_max_def using fold_max_ge [of "- 1" fs] by simp

lemma failed_rank_max_in: "failed_rank_max fs \<noteq> - 1 \<Longrightarrow> failed_rank_max fs \<in> set fs"
  unfolding failed_rank_max_def using fold_max_in [of fs "- 1"] by simp


lemma follower_map_failed:
  "snd (follower_map r X a p) =
     (if \<exists>reg \<in> set (snd (unmap_overlapping X a (p_prev_vms p) (p_space p))).
           region_overlap reg (X, a)
      then int r else - 1)"
  by (simp add: follower_map_def map_fixed_def split: prod.splits)




text \<open>What a round with a result has done, read off its record.\<close>

lemma reserve_round_log:
  assumes "reserve_round chk pick ru al sz cap L a ps = Inr (res, lg)"
  shows "L < length ps" "r_procs lg = ps" "r_leader lg = L" "r_alloc lg = a"
    "pick L (p_space (ps ! L)) a al = Some (r_addr lg)"
    "length (r_failed lg) = length ps"
    "\<forall>r<length ps. r_failed lg ! r =
        (if r = L then - 1 else snd (follower_map r (r_addr lg) a (ps ! r)))"
proof -
  show L: "L < length ps" using assms by (auto simp: reserve_round_def split: if_splits)
  then obtain X where X: "pick L (p_space (ps ! L)) a al = Some X"
    using assms by (auto simp: reserve_round_def split: if_splits option.splits)
  define pfs where "pfs = map (\<lambda>(my_rank, p).
                      if my_rank = L then (leader_map X a p, - 1)
                      else follower_map my_rank X a p)
                    (zip [0 ..< length ps] ps)"
  define LG where "LG = \<lparr>r_procs = ps, r_leader = L, r_alloc = a, r_addr = X,
      r_failed = map snd pfs\<rparr>"
  have "(if failed_rank_max (map snd pfs) = - 1
         then (case those_procs (map (finish chk ru sz \<circ> fst) pfs) of
                 None \<Rightarrow> Inl CheckFailed | Some qs \<Rightarrow> Inr (Success qs, LG))
         else Inr (Retry (nat (failed_rank_max (map snd pfs))) (min cap (sz_mul 2 a))
                     (map defer_free pfs), LG)) = Inr (res, lg)"
    using assms L X unfolding reserve_round_def pfs_def LG_def Let_def by simp
  then have "lg = LG" by (auto split: if_splits option.splits)
  then have lg: "lg = \<lparr>r_procs = ps, r_leader = L, r_alloc = a, r_addr = X, r_failed = map snd pfs\<rparr>"
    unfolding LG_def .
  show "r_procs lg = ps" "r_leader lg = L" "r_alloc lg = a" using lg by simp_all
  show "pick L (p_space (ps ! L)) a al = Some (r_addr lg)" using X lg by simp
  show "length (r_failed lg) = length ps" using lg by (simp add: pfs_def)
  show "\<forall>r<length ps. r_failed lg ! r =
        (if r = L then - 1 else snd (follower_map r (r_addr lg) a (ps ! r)))"
    using lg by (simp add: pfs_def)
qed


lemma reserve_round_failed_entries:
  assumes "reserve_round chk pick ru al sz cap L a ps = Inr (res, lg)" "r < length ps"
  shows "r_failed lg ! r = - 1 \<or> (r_failed lg ! r = int r \<and> r \<noteq> L)"
  using reserve_round_log(7) [OF assms(1)] assms(2) by (simp add: follower_map_failed)

lemma reserve_round_Retry:
  assumes "reserve_round chk pick ru al sz cap L a ps = Inr (Retry L' a' ps', lg)"
  shows "failed_rank_max (r_failed lg) \<noteq> - 1" "L' = nat (failed_rank_max (r_failed lg))"
    "a' = min cap (sz_mul 2 a)" "length ps' = length ps"
    "L' < length ps" "L' \<noteq> L" "r_failed lg ! L' = int L'"
    "\<forall>r<length ps. r_failed lg ! r \<noteq> - 1 \<longrightarrow> r \<le> L'"
proof -
  note l = reserve_round_log [OF assms]
  obtain X where X: "pick L (p_space (ps ! L)) a al = Some X" using l(5) by blast
  define pfs where "pfs = map (\<lambda>(my_rank, p).
                      if my_rank = L then (leader_map X a p, - 1)
                      else follower_map my_rank X a p)
                    (zip [0 ..< length ps] ps)"
  define LG where "LG = \<lparr>r_procs = ps, r_leader = L, r_alloc = a, r_addr = X,
      r_failed = map snd pfs\<rparr>"
  have e: "(if failed_rank_max (map snd pfs) = - 1
         then (case those_procs (map (finish chk ru sz \<circ> fst) pfs) of
                 None \<Rightarrow> Inl CheckFailed | Some qs \<Rightarrow> Inr (Success qs, LG))
         else Inr (Retry (nat (failed_rank_max (map snd pfs))) (min cap (sz_mul 2 a))
                     (map defer_free pfs), LG)) = Inr (Retry L' a' ps', lg)"
    using assms l(1) X unfolding reserve_round_def pfs_def LG_def Let_def by simp
  then have lg: "lg = LG" by (auto split: if_splits option.splits)
  have f: "r_failed lg = map snd pfs" unfolding lg LG_def by simp
  show n: "failed_rank_max (r_failed lg) \<noteq> - 1" unfolding f using e
    by (auto split: if_splits option.splits)
  show L': "L' = nat (failed_rank_max (r_failed lg))" unfolding f using e
    by (auto split: if_splits option.splits)
  show "a' = min cap (sz_mul 2 a)" using e by (auto split: if_splits option.splits)
  have "ps' = map defer_free pfs" using e by (auto split: if_splits option.splits)
  then show "length ps' = length ps" by (simp add: pfs_def)
  from failed_rank_max_in [OF n] obtain r where r: "r < length (r_failed lg)"
    "r_failed lg ! r = failed_rank_max (r_failed lg)" by (auto simp: in_set_conv_nth)
  have rl: "r < length ps" using r(1) l(6) by simp
  have "r_failed lg ! r = int r \<and> r \<noteq> L"
    using reserve_round_failed_entries [OF assms rl] r(2) n by simp
  then have m: "failed_rank_max (r_failed lg) = int r" "r \<noteq> L" using r(2) by simp_all
  then have rL: "L' = r" unfolding L' by simp
  show "L' < length ps" "L' \<noteq> L" "r_failed lg ! L' = int L'"
    unfolding rL using rl m r(2) by simp_all
  show "\<forall>r<length ps. r_failed lg ! r \<noteq> - 1 \<longrightarrow> r \<le> L'"
  proof (intro allI impI)
    fix q assume q: "q < length ps" "r_failed lg ! q \<noteq> - 1"
    then have "r_failed lg ! q = int q" using reserve_round_failed_entries [OF assms q(1)] by simp
    moreover have "r_failed lg ! q \<le> failed_rank_max (r_failed lg)"
      using q(1) l(6) by (intro failed_rank_max_ge) simp
    ultimately show "q \<le> L'" unfolding rL using m(1) by simp
  qed
qed





lemma reserve_round_next:
  assumes x: "reserve_round chk pick ru al sz cap L a ps = Inr (Retry L' a' ps', lg)"
    and y: "reserve_round chk pick ru al sz cap L' a' ps' = Inr (res, lg')"
  shows "next_round_ok cap lg lg'"
proof -
  note l = reserve_round_log [OF x] and r = reserve_round_Retry [OF x]
    and l' = reserve_round_log [OF y]
  have "\<exists>r<length (r_failed lg). r_failed lg ! r \<noteq> - 1" using r(5,7) l(6) by auto
  then show ?thesis unfolding next_round_ok_def using l l' r by simp
qed








subsection \<open>Unmapping and the mappings it leaves\<close>


















subsection \<open>One process in one round\<close>











subsection \<open>One round, rank by rank\<close>





subsection \<open>The rounds of a run, one after the other\<close>






subsection \<open>The protocol\<close>


subsection \<open>A run in which an address comes back\<close>











section \<open>Claims about the parallel reduction\<close>

lemma parallel_reduce_generic_leaf:
  "last' - first \<le> cutoff_count policy \<Longrightarrow>
   parallel_reduce_generic (Suc fuel) policy ser rl rh first last' s =
     Some (Call rh first last' [Ori_poll, Ito_poll rh, For_each_aux first last'], s)"
  by simp

lemma parallel_reduce_generic_fork:
  assumes "\<not> last' - first \<le> cutoff_count policy"
    and "parallel_reduce_generic (Suc fuel) policy ser rl rh first last' s = Some (c, s')"
  obtains child s2 right where
    "parallel_reduce_generic fuel policy ser rl rh first (first + (last' - first) div 2)
       (s\<lparr>rt_threads := rt_threads s + 1\<rparr>) = Some (child, s2)"
    and "ser (rt_threads s) \<Longrightarrow>
       parallel_reduce_generic fuel policy ser rl rh (first + (last' - first) div 2) last' s2 =
         Some (right, s') \<and>
       c = Call rh first last'
             [Ori_poll, Ito_poll rh, Task_group_begin,
              Thread (rt_threads s) (Cb_acquire_rh rh) Cb_release [child],
              Serialized (rt_threads s) True, Join (rt_threads s), right,
              Task_group_end Cb_release Cb_acquire]"
    and "\<not> ser (rt_threads s) \<Longrightarrow>
       parallel_reduce_generic fuel policy ser rl (rl (rt_handles s2))
         (first + (last' - first) div 2) last' (s2\<lparr>rt_handles := rt_handles s2 + 1\<rparr>) =
         Some (right, s') \<and>
       c = Call rh first last'
             [Ori_poll, Ito_poll rh, Task_group_begin,
              Thread (rt_threads s) (Cb_acquire_rh rh) Cb_release [child],
              Serialized (rt_threads s) False, Release_lazy (rl (rt_handles s2)), right,
              Release, Join (rt_threads s), Task_group_end Cb_release Cb_acquire, Acquire,
              Combine_op first (first + (last' - first) div 2) last']"
  using assms
  by (auto simp: Let_def ito_thread_def ori_release_lazy_def
      split: if_splits option.splits prod.splits)

lemma parallel_reduce_generic_shape:
  "parallel_reduce_generic fuel policy ser rl rh first last' s = Some (c, s') \<Longrightarrow>
     \<exists>es. c = Call rh first last' es"
  by (cases fuel)
    (auto simp: Let_def ito_thread_def ori_release_lazy_def split: if_splits option.splits prod.splits)

lemma upt_map_append:
  "a \<le> b \<Longrightarrow> b \<le> c \<Longrightarrow> map f [a ..< b] @ map f [b ..< c] = map f [a ..< (c::nat)]"
  by (metis le_Suc_ex map_append upt_add_eq_append)

text \<open>
  Every \<open>Release_lazy\<close> event of a run is a call that the runtime answered, and every
  \<open>Thread\<close> event is a thread that the runtime created.
\<close>

lemma parallel_reduce_generic_runtime:
  "parallel_reduce_generic fuel policy ser rl rh first last' s = Some (c, s') \<Longrightarrow>
     rt_handles s \<le> rt_handles s' \<and> rt_threads s \<le> rt_threads s' \<and>
     lazy_handles c = map rl [rt_handles s ..< rt_handles s'] \<and>
     thread_ids c = [rt_threads s ..< rt_threads s']"
proof (induction fuel arbitrary: rh first last' s c s')
  case 0 then show ?case by simp
next
  case (Suc fuel)
  show ?case
  proof (cases "last' - first \<le> cutoff_count policy")
    case True
    then show ?thesis using Suc.prems by auto
  next
    case False
    define mid where "mid = first + (last' - first) div 2"
    obtain child s2 right where
      l: "parallel_reduce_generic fuel policy ser rl rh first mid
            (s\<lparr>rt_threads := rt_threads s + 1\<rparr>) = Some (child, s2)"
      and t: "ser (rt_threads s) \<Longrightarrow>
         parallel_reduce_generic fuel policy ser rl rh mid last' s2 = Some (right, s') \<and>
         c = Call rh first last'
             [Ori_poll, Ito_poll rh, Task_group_begin,
              Thread (rt_threads s) (Cb_acquire_rh rh) Cb_release [child],
              Serialized (rt_threads s) True, Join (rt_threads s), right,
              Task_group_end Cb_release Cb_acquire]"
      and f: "\<not> ser (rt_threads s) \<Longrightarrow>
         parallel_reduce_generic fuel policy ser rl (rl (rt_handles s2)) mid last'
           (s2\<lparr>rt_handles := rt_handles s2 + 1\<rparr>) = Some (right, s') \<and>
         c = Call rh first last'
             [Ori_poll, Ito_poll rh, Task_group_begin,
              Thread (rt_threads s) (Cb_acquire_rh rh) Cb_release [child],
              Serialized (rt_threads s) False, Release_lazy (rl (rt_handles s2)), right,
              Release, Join (rt_threads s), Task_group_end Cb_release Cb_acquire, Acquire,
              Combine_op first mid last']"
      unfolding mid_def by (rule parallel_reduce_generic_fork [OF False Suc.prems]) blast
    note il = Suc.IH [OF l, simplified]
    have th: "rt_threads s # [Suc (rt_threads s) ..< rt_threads s2] = [rt_threads s ..< rt_threads s2]"
      using il by (simp add: upt_conv_Cons)
    show ?thesis
    proof (cases "ser (rt_threads s)")
      case True
      note r = t [OF True, THEN conjunct1] and c = t [OF True, THEN conjunct2]
      note ir = Suc.IH [OF r]
      have h: "map rl [rt_handles s ..< rt_handles s2] @ map rl [rt_handles s2 ..< rt_handles s'] =
          map rl [rt_handles s ..< rt_handles s']"
        using il ir by (intro upt_map_append) simp_all
      have i: "[rt_threads s ..< rt_threads s2] @ [rt_threads s2 ..< rt_threads s'] =
          [rt_threads s ..< rt_threads s']"
        using il ir upt_map_append [of "rt_threads s" "rt_threads s2" "rt_threads s'" id] by simp
      show ?thesis unfolding c using il ir h i th by simp
    next
      case False
      note r = f [OF False, THEN conjunct1] and c = f [OF False, THEN conjunct2]
      note ir = Suc.IH [OF r, simplified]
      have h1: "map rl [rt_handles s ..< rt_handles s2] @ [rl (rt_handles s2)] =
          map rl [rt_handles s ..< Suc (rt_handles s2)]"
        using il by simp
      have h: "map rl [rt_handles s ..< Suc (rt_handles s2)] @
          map rl [Suc (rt_handles s2) ..< rt_handles s'] = map rl [rt_handles s ..< rt_handles s']"
        using il ir by (intro upt_map_append) simp_all
      have i: "[rt_threads s ..< rt_threads s2] @ [rt_threads s2 ..< rt_threads s'] =
          [rt_threads s ..< rt_threads s']"
        using il ir upt_map_append [of "rt_threads s" "rt_threads s2" "rt_threads s'" id] by simp
      show ?thesis unfolding c using il ir h1 h i th
        by (simp del: upt_Suc) (metis append.assoc append_Cons append_Nil)
    qed
  qed
qed

lemma parallel_reduce_generic_calls:
  "parallel_reduce_generic fuel policy ser rl rh first last' s = Some (c, s') \<Longrightarrow>
   list_all (\<lambda>x. child_spawned policy x \<and> migration_handoff ser x) (calls c)"
proof (induction fuel arbitrary: rh first last' s c s')
  case 0 then show ?case by simp
next
  case (Suc fuel)
  show ?case
  proof (cases "last' - first \<le> cutoff_count policy")
    case True
    then have "c = Call rh first last' [Ori_poll, Ito_poll rh, For_each_aux first last']"
      using Suc.prems(1) by simp
    then show ?thesis using True by simp
  next
    case False
    define mid where "mid = first + (last' - first) div 2"
    obtain child s2 right where
      l: "parallel_reduce_generic fuel policy ser rl rh first mid
            (s\<lparr>rt_threads := rt_threads s + 1\<rparr>) = Some (child, s2)"
      and t: "ser (rt_threads s) \<Longrightarrow>
         parallel_reduce_generic fuel policy ser rl rh mid last' s2 = Some (right, s') \<and>
         c = Call rh first last'
             [Ori_poll, Ito_poll rh, Task_group_begin,
              Thread (rt_threads s) (Cb_acquire_rh rh) Cb_release [child],
              Serialized (rt_threads s) True, Join (rt_threads s), right,
              Task_group_end Cb_release Cb_acquire]"
      and f: "\<not> ser (rt_threads s) \<Longrightarrow>
         parallel_reduce_generic fuel policy ser rl (rl (rt_handles s2)) mid last'
           (s2\<lparr>rt_handles := rt_handles s2 + 1\<rparr>) = Some (right, s') \<and>
         c = Call rh first last'
             [Ori_poll, Ito_poll rh, Task_group_begin,
              Thread (rt_threads s) (Cb_acquire_rh rh) Cb_release [child],
              Serialized (rt_threads s) False, Release_lazy (rl (rt_handles s2)), right,
              Release, Join (rt_threads s), Task_group_end Cb_release Cb_acquire, Acquire,
              Combine_op first mid last']"
      unfolding mid_def by (rule parallel_reduce_generic_fork [OF False Suc.prems(1)]) blast
    obtain esl where ls: "child = Call rh first mid esl"
      using parallel_reduce_generic_shape [OF l] by blast
    note cl = Suc.IH [OF l]
    show ?thesis
    proof (cases "ser (rt_threads s)")
      case True
      note r = t [OF True, THEN conjunct1] and c = t [OF True, THEN conjunct2]
      obtain es where rs: "right = Call rh mid last' es"
        using parallel_reduce_generic_shape [OF r] by blast
      note cr = Suc.IH [OF r]
      show ?thesis using cl cr False True unfolding c rs ls by (simp add: mid_def)
    next
      case F: False
      note r = f [OF F, THEN conjunct1] and c = f [OF F, THEN conjunct2]
      obtain es where rs: "right = Call (rl (rt_handles s2)) mid last' es"
        using parallel_reduce_generic_shape [OF r] by blast
      note cr = Suc.IH [OF r]
      show ?thesis using cl cr False F unfolding c rs ls by (simp add: mid_def)
    qed
  qed
qed

lemma parallel_reduce_generic_returns:
  "1 \<le> cutoff_count policy \<Longrightarrow> last' - first < fuel \<Longrightarrow>
   \<exists>r. parallel_reduce_generic fuel policy ser rl rh first last' s = Some r"
proof (induction fuel arbitrary: rh first last' s)
  case 0 then show ?case by simp
next
  case (Suc fuel)
  show ?case
  proof (cases "last' - first \<le> cutoff_count policy")
    case True then show ?thesis by simp
  next
    case False
    define mid where "mid = first + (last' - first) div 2"
    have d: "2 \<le> last' - first" using False Suc.prems(1) by simp
    have m1: "mid - first < fuel" using d Suc.prems(2) unfolding mid_def by simp
    have m2: "last' - mid < fuel" using d Suc.prems(2) unfolding mid_def by simp
    obtain child s2 where
      l: "parallel_reduce_generic fuel policy ser rl rh first mid
            (snd (ito_thread s)) = Some (child, s2)"
      using Suc.IH [OF Suc.prems(1) m1] by fastforce
    obtain r1 where r1: "parallel_reduce_generic fuel policy ser rl rh mid last' s2 = Some r1"
      using Suc.IH [OF Suc.prems(1) m2] by blast
    obtain r2 where r2: "parallel_reduce_generic fuel policy ser rl (fst (ori_release_lazy rl s2))
        mid last' (snd (ori_release_lazy rl s2)) = Some r2"
      using Suc.IH [OF Suc.prems(1) m2] by blast
    show ?thesis using False l r1 r2 unfolding mid_def
      by (simp add: Let_def case_prod_beta)
  qed
qed

lemma reduce_generic_calls:
  assumes "reduce_generic chk fuel policy ser rl first last' s = Inr (es, s')"
  shows "list_all (\<lambda>x. child_spawned policy x \<and> migration_handoff ser x) (concat (map calls es))"
    and "concat (map lazy_handles es) = map rl [rt_handles s ..< rt_handles s']"
proof -
  obtain c where r: "parallel_reduce_generic fuel policy ser rl (rl (rt_handles s)) first last'
      (s\<lparr>rt_handles := rt_handles s + 1\<rparr>) = Some (c, s')"
    and es: "es = [Release_lazy (rl (rt_handles s)), c]"
    using assms
    by (auto simp: reduce_generic_def ori_release_lazy_def split: option.splits)
  show "list_all (\<lambda>x. child_spawned policy x \<and> migration_handoff ser x) (concat (map calls es))"
    using parallel_reduce_generic_calls [OF r] unfolding es by simp
  note h = parallel_reduce_generic_runtime [OF r, simplified]
  have "rl (rt_handles s) # map rl [Suc (rt_handles s) ..< rt_handles s'] =
      map rl [rt_handles s ..< rt_handles s']"
    using h by (simp add: upt_conv_Cons)
  then show "concat (map lazy_handles es) = map rl [rt_handles s ..< rt_handles s']"
    unfolding es using h by simp
qed

lemma reduce_generic_checked:
  assumes "reduce_generic True fuel policy ser rl first last' s = r"
  shows "r = Inl Check_failed \<longleftrightarrow> \<not> (0 < checkout_count policy \<and> checkout_count policy \<le> cutoff_count policy)"
    and "r \<noteq> Inl Check_failed \<Longrightarrow> last' - first < fuel \<Longrightarrow> \<exists>es s'. r = Inr (es, s')"
proof -
  show a: "r = Inl Check_failed \<longleftrightarrow>
      \<not> (0 < checkout_count policy \<and> checkout_count policy \<le> cutoff_count policy)"
    using assms
    by (auto simp: reduce_generic_def assert_policy_def ITYR_CHECK_def ori_release_lazy_def
        split: option.splits if_splits)
  assume n: "r \<noteq> Inl Check_failed" and f: "last' - first < fuel"
  have c: "1 \<le> cutoff_count policy" using a n by simp
  obtain c' s' where "parallel_reduce_generic fuel policy ser rl (rl (rt_handles s)) first last'
      (s\<lparr>rt_handles := rt_handles s + 1\<rparr>) = Some (c', s')"
    using parallel_reduce_generic_returns [OF c f] by fastforce
  then show "\<exists>es s'. r = Inr (es, s')" using assms n
    by (auto simp: reduce_generic_def ori_release_lazy_def split: option.splits)
qed





end
